theory Spec2Isabelle
  imports Complex_Main "HOL-Library.Sublist" "HOL-Library.Code_Target_Nat"
begin

section \<open>JavaScript strings\<close>

text \<open>
  A JavaScript string is a sequence of UTF-16 code units. It is modelled as a list of
  natural numbers, a code unit being a number below 65536. The string operations of the
  program (regular expressions without the \<open>u\<close> flag, \<open>split\<close>, \<open>startsWith\<close>, \<open>join\<close>,
  \<open>slice\<close>, \<open>length\<close>, \<open>trim\<close>) work on code units; only \<open>toUpperCase\<close> reads code points.
  A text literal of the program is written \<open>lit ''...''\<close>.
\<close>

type_synonym jsstring = "nat list"

definition lit :: "string \<Rightarrow> jsstring" where
  "lit s = map of_char s"

datatype jsval = JUndefined | JNull | JString jsstring

text \<open>
  \<open>StringToCodePoints\<close> and \<open>CodePointsToString\<close> of the language: a leading surrogate
  followed by a trailing surrogate is one code point above \<open>0xFFFF\<close>, every other code unit
  is the code point of its own value (an unpaired surrogate too).
\<close>

definition is_leading_surrogate :: "nat \<Rightarrow> bool" where
  "is_leading_surrogate u = (0xD800 \<le> u \<and> u \<le> 0xDBFF)"

definition is_trailing_surrogate :: "nat \<Rightarrow> bool" where
  "is_trailing_surrogate u = (0xDC00 \<le> u \<and> u \<le> 0xDFFF)"

fun StringToCodePoints :: "jsstring \<Rightarrow> nat list" where
  "StringToCodePoints [] = []"
| "StringToCodePoints [u] = [u]"
| "StringToCodePoints (u # v # s) =
     (if is_leading_surrogate u \<and> is_trailing_surrogate v
      then (0x10000 + (u - 0xD800) * 0x400 + (v - 0xDC00)) # StringToCodePoints s
      else u # StringToCodePoints (v # s))"

definition UTF16EncodeCodePoint :: "nat \<Rightarrow> jsstring" where
  "UTF16EncodeCodePoint cp =
     (if cp \<le> 0xFFFF then [cp]
      else [(cp - 0x10000) div 0x400 + 0xD800, (cp - 0x10000) mod 0x400 + 0xDC00])"

definition CodePointsToString :: "nat list \<Rightarrow> jsstring" where
  "CodePointsToString cps = concat (map UTF16EncodeCodePoint cps)"

text \<open>
  The upper-case mapping of the Unicode Character Database that the runtime uses (the
  mappings of UnicodeData and the unconditional ones of SpecialCasing): a code point and
  the code points that replace it. The table belongs to the runtime, not to the
  repository, and is a parameter of the model. \<open>toUpperCase\<close> maps every code point of the
  string through it, whatever its neighbours.
\<close>

type_synonym case_table = "nat \<Rightarrow> nat list"

definition toUpperCase :: "case_table \<Rightarrow> jsstring \<Rightarrow> jsstring" where
  "toUpperCase upper s = CodePointsToString (concat (map upper (StringToCodePoints s)))"

section \<open>Text normalisation (checker.js, normalizeText)\<close>

text \<open>
  The class \<open>\s\<close> of the regular expressions, which is also what \<open>trim\<close> removes: the white
  space and the line terminators of the language.
\<close>

definition is_space :: "nat \<Rightarrow> bool" where
  "is_space u =
     (u = 0x09 \<or> u = 0x0A \<or> u = 0x0B \<or> u = 0x0C \<or> u = 0x0D \<or> u = 0x20 \<or> u = 0xA0
      \<or> u = 0x1680 \<or> (0x2000 \<le> u \<and> u \<le> 0x200A) \<or> u = 0x2028 \<or> u = 0x2029
      \<or> u = 0x202F \<or> u = 0x205F \<or> u = 0x3000 \<or> u = 0xFEFF)"

text \<open>The character class \<open>[\.,\-']\<close>.\<close>

definition is_punct :: "nat \<Rightarrow> bool" where
  "is_punct u = (u = 0x2E \<or> u = 0x2C \<or> u = 0x2D \<or> u = 0x27)"

text \<open>\<open>.replace(/[\.,\-']/g, "")\<close>: every code unit of the class is deleted.\<close>

definition strip_punct :: "jsstring \<Rightarrow> jsstring" where
  "strip_punct s = filter (\<lambda>u. \<not> is_punct u) s"

text \<open>\<open>.replace(/\s+/g, " ")\<close>: every maximal run of white space becomes one space.\<close>

function collapse_spaces :: "jsstring \<Rightarrow> jsstring" where
  "collapse_spaces [] = []"
| "collapse_spaces (c # cs) =
     (if is_space c then 0x20 # collapse_spaces (dropWhile is_space cs)
      else c # collapse_spaces cs)"
  by pat_completeness auto
termination
  by (relation "measure length") (auto simp: length_dropWhile_le less_Suc_eq_le)

text \<open>\<open>.trim()\<close>: white space is removed from both ends.\<close>

definition trim :: "jsstring \<Rightarrow> jsstring" where
  "trim s = rev (dropWhile is_space (rev (dropWhile is_space s)))"

text \<open>
  \<open>if (!text) return ""\<close>: \<open>undefined\<close>, \<open>null\<close> and the empty string are falsy; every
  other string goes through the chain of string operations. The argument is \<open>undefined\<close>,
  \<open>null\<close> or a string: the cells of the CSV parser and the names of the subject loader are
  strings.
\<close>

fun normalizeText :: "case_table \<Rightarrow> jsval \<Rightarrow> jsstring" where
  "normalizeText upper JUndefined = []"
| "normalizeText upper JNull = []"
| "normalizeText upper (JString s) =
     (if s = [] then [] else trim (collapse_spaces (strip_punct (toUpperCase upper s))))"

section \<open>Strings and numbers of the host language\<close>

text \<open>\<open>s.split(" ")\<close>: the pieces between single spaces; the empty string gives one empty
  piece, and two adjacent spaces give an empty piece between them. (The result is never the
  empty list, so the first branch of the \<open>case\<close> is not reached.)\<close>

fun js_split :: "jsstring \<Rightarrow> jsstring list" where
  "js_split [] = [[]]"
| "js_split (c # cs) =
     (if c = 0x20 then [] # js_split cs
      else (case js_split cs of [] \<Rightarrow> [[c]] | w # ws \<Rightarrow> (c # w) # ws))"

text \<open>\<open>xs.join(sep)\<close>.\<close>

fun js_join :: "jsstring \<Rightarrow> jsstring list \<Rightarrow> jsstring" where
  "js_join sep [] = []"
| "js_join sep [x] = x"
| "js_join sep (x # y # ys) = x @ sep @ js_join sep (y # ys)"

text \<open>The decimal numeral of a natural number, as a template literal prints \<open>i + 1\<close>.\<close>

definition digit_char :: "nat \<Rightarrow> nat" where
  "digit_char d = 0x30 + d"

fun show_nat :: "nat \<Rightarrow> jsstring" where
  "show_nat n = (if n < 10 then [digit_char n] else show_nat (n div 10) @ [digit_char (n mod 10)])"

text \<open>\<open>x.toFixed(2)\<close> for a number \<open>x \<ge> 0\<close>: the nearest multiple of \<open>1/100\<close> (the larger one
  on a tie), printed with two decimals.\<close>

definition toFixed2 :: "rat \<Rightarrow> jsstring" where
  "toFixed2 x =
     (let n = nat \<lfloor>x * 100 + 1 / 2\<rfloor>
      in show_nat (n div 100) @ lit ''.'' @ [digit_char (n div 10 mod 10), digit_char (n mod 10)])"

text \<open>The character class \<open>[a-zA-Z0-9]\<close>.\<close>

definition is_alnum :: "nat \<Rightarrow> bool" where
  "is_alnum u = ((0x30 \<le> u \<and> u \<le> 0x39) \<or> (0x41 \<le> u \<and> u \<le> 0x5A) \<or> (0x61 \<le> u \<and> u \<le> 0x7A))"

text \<open>\<open>path.basename\<close> of a path without a trailing separator.\<close>

definition basename :: "jsstring \<Rightarrow> jsstring" where
  "basename p = rev (takeWhile (\<lambda>c. c \<noteq> 0x2F) (rev p))"

section \<open>Configuration (checker.js)\<close>

definition SAVE_JSON_RESPONSES :: bool where
  "SAVE_JSON_RESPONSES = True"

definition MAX_CELL_LENGTH :: nat where
  "MAX_CELL_LENGTH = 32000"

section \<open>Reference corpus (checker.js, loadCSVFolder)\<close>

text \<open>
  The folder is what \<open>fs.readdirSync\<close> lists: file names with their contents. A file is
  what the two streams make of it. Either the CSV parser emits its rows, each row the list
  \<open>Object.values(row)\<close> of its cell texts, and ends. Or the file cannot be read: the read
  stream emits \<open>error\<close>, which nobody listens to (the listener of the program is on the
  parser, after \<open>.pipe\<close>), and the process ends on the uncaught error. Or the parser itself
  emits \<open>error\<close>, and the promise is rejected.
\<close>

datatype csv_file = CsvRows "jsstring list list" | CsvUnreadable | CsvParserError

type_synonym folder = "(jsstring \<times> csv_file) list"

datatype error =
    NoCsvFiles            \<comment> \<open>\<open>"No CSV files found in folder."\<close>\<close>
  | NoEntries             \<comment> \<open>\<open>"No entries loaded from CSVs."\<close>\<close>
  | CsvStreamError        \<comment> \<open>the promise of a file is rejected\<close>
  | UncaughtStreamError   \<comment> \<open>an \<open>error\<close> event without listener: the process ends\<close>
  | WorkbookReadError     \<comment> \<open>\<open>XLSX.readFile\<close> throws\<close>
  | BrowserLaunchError    \<comment> \<open>\<open>puppeteer.launch\<close> or \<open>browser.newPage\<close> throws\<close>
  | JsonWriteError        \<comment> \<open>\<open>fs.writeFileSync\<close> throws inside the loop\<close>
  | ReportWriteError      \<comment> \<open>\<open>XLSX.writeFile\<close> throws\<close>

record entry =
  id_entry :: jsstring
  name :: jsstring
  words :: "jsstring list"

text \<open>The \<open>for (const file of files)\<close> loop: the cells of each row are normalised and the
  non-empty ones pushed onto \<open>entries\<close>; a failing stream ends the function.\<close>

fun readCsvFiles :: "case_table \<Rightarrow> folder \<Rightarrow> jsstring list \<Rightarrow> error + jsstring list" where
  "readCsvFiles upper [] entries = Inr entries"
| "readCsvFiles upper ((file, CsvUnreadable) # files) entries = Inl UncaughtStreamError"
| "readCsvFiles upper ((file, CsvParserError) # files) entries = Inl CsvStreamError"
| "readCsvFiles upper ((file, CsvRows rows) # files) entries =
     readCsvFiles upper files
       (entries @ filter (\<lambda>normalized. normalized \<noteq> [])
                    (map (\<lambda>val. normalizeText upper (JString val)) (concat rows)))"

definition loadCSVFolder :: "case_table \<Rightarrow> folder \<Rightarrow> error + entry list" where
  "loadCSVFolder upper folder =
     (let files = filter (\<lambda>(f, content). suffix (lit ''.csv'') f) folder
      in if files = [] then Inl NoCsvFiles
         else (case readCsvFiles upper files [] of
                 Inl e \<Rightarrow> Inl e
               | Inr entries \<Rightarrow>
                   if entries = [] then Inl NoEntries
                   else Inr (map (\<lambda>(i, n). \<lparr>id_entry = lit ''entry_'' @ show_nat (i + 1),
                                             name = n, words = js_split n\<rparr>)
                               (enumerate 0 entries))))"

section \<open>Matching (checker.js, searchName)\<close>

text \<open>
  The score is the quotient of two array lengths. It is modelled as a rational number: the
  floating-point quotient of two lengths is \<open>1\<close> exactly when they are equal, and the
  divisor, the length of a \<open>split\<close> result, is never \<open>0\<close>.
  \<open>.map(...).filter(Boolean)\<close> keeps the objects and drops the \<open>null\<close>s.
\<close>

record match =
  id_match :: jsstring
  matchedName :: jsstring
  score :: rat

definition searchName :: "case_table \<Rightarrow> jsval \<Rightarrow> entry list \<Rightarrow> match list" where
  "searchName upper publisherName entries =
     (let pubWords = js_split (normalizeText upper publisherName)
      in List.map_filter
           (\<lambda>entry.
              let matchedWords = filter (\<lambda>pw. list_ex (\<lambda>ew. prefix pw ew) (words entry)) pubWords;
                  sc = of_nat (length matchedWords) / of_nat (length pubWords)
              in if sc = 1
                 then Some \<lparr>id_match = id_entry entry, matchedName = name entry, score = sc\<rparr>
                 else None)
           entries)"

section \<open>Subjects, report rows and the effects of a run\<close>

record publisher =
  Name :: jsstring

text \<open>One object of \<open>sheet_to_json\<close>: header texts with their cell texts. The cells are
  taken to be texts, as names are; a numeric or boolean cell is outside the model.\<close>

type_synonym sheet_row = "(jsstring \<times> jsstring) list"

text \<open>\<open>r[key] || rest\<close> on texts: an absent key and the empty text are falsy.\<close>

definition or_else :: "jsstring option \<Rightarrow> jsstring \<Rightarrow> jsstring" where
  "or_else v rest = (case v of None \<Rightarrow> rest | Some t \<Rightarrow> if t = [] then rest else t)"

definition publisherOf :: "sheet_row \<Rightarrow> publisher" where
  "publisherOf r =
     \<lparr>Name = or_else (map_of r (lit ''Name as per Bank Account'')) (or_else (map_of r (lit ''Name'')) [])\<rparr>"

record link =
  text' :: jsstring
  hyperlink :: jsstring

record row =
  Publisher :: jsstring
  MatchStatus :: jsstring
  MatchCount :: nat
  Matches :: jsstring
  Screenshot :: link

text \<open>The steps of \<open>takeScreenshot\<close> that can throw. Waiting for the results table cannot:
  its rejection is caught on the spot.\<close>

datatype page_step = Goto | ClearInput | TypeName | ClickSearch | Capture

datatype effect =
    Progress nat nat jsstring jsstring   \<comment> \<open>a call of \<open>progressCallback\<close>\<close>
  | LaunchBrowser
  | WriteJson jsstring "match list"
  | PageStep page_step
  | SaveScreenshot jsstring
  | CloseBrowser
  | WriteReport jsstring "row list"

text \<open>
  The world outside the program: the case table of the runtime, the files the program
  reads, the clock, and which of its calls throw. \<open>page_failure env i\<close> is the first step of
  the capture of subject \<open>i\<close> (counted from 0) that throws, if any. Creating the result
  directories is taken to succeed.
\<close>

record env =
  uppercase :: case_table
  csv_folder :: folder
  read_workbook :: "jsstring \<Rightarrow> sheet_row list option"
  timestamp :: jsstring
  launch_ok :: bool
  json_write_ok :: "nat \<Rightarrow> bool"
  page_failure :: "nat \<Rightarrow> page_step option"
  report_write_ok :: bool
  archive_ok :: bool
  dirname :: jsstring

section \<open>Evidence capture (checker.js, takeScreenshot)\<close>

definition takeScreenshot :: "env \<Rightarrow> nat \<Rightarrow> jsstring \<Rightarrow> jsstring \<Rightarrow> effect list \<times> (page_step + unit)" where
  "takeScreenshot env i nm filepath =
     (if nm = [] then ([], Inr ())
      else (case page_failure env i of
              Some s \<Rightarrow>
                (map PageStep (takeWhile (\<lambda>t. t \<noteq> s) [Goto, ClearInput, TypeName, ClickSearch]),
                 Inl s)
            | None \<Rightarrow>
                (map PageStep [Goto, ClearInput, TypeName, ClickSearch] @ [SaveScreenshot filepath],
                 Inr ())))"

section \<open>The run (checker.js, runChecker)\<close>

definition safeName :: "jsstring \<Rightarrow> jsstring" where
  "safeName nm =
     map (\<lambda>c. if is_alnum c then c else 0x5F) (if nm \<noteq> [] then nm else lit ''EMPTY'')"

text \<open>The first value of \<open>matchesString\<close>, and the value after the \<open>if\<close> that truncates it.\<close>

definition joinedMatches :: "match list \<Rightarrow> jsstring" where
  "joinedMatches matches =
     js_join (lit ''; '')
       (map (\<lambda>m. matchedName m @ lit '' (score: '' @ toFixed2 (score m) @ lit '')'') matches)"

definition matchesString :: "match list \<Rightarrow> jsstring" where
  "matchesString matches =
     (if length (joinedMatches matches) > MAX_CELL_LENGTH
      then take MAX_CELL_LENGTH (joinedMatches matches) @ lit '' ...[truncated]''
      else joinedMatches matches)"

text \<open>
  The body of the \<open>for\<close> loop for subject \<open>i\<close>. \<open>cb\<close> says whether a progress callback was
  passed. The \<open>try\<close> around the capture catches whatever \<open>takeScreenshot\<close> throws; the write
  of the JSON file is outside it.
\<close>

definition loopBody ::
  "env \<Rightarrow> bool \<Rightarrow> entry list \<Rightarrow> jsstring \<Rightarrow> jsstring \<Rightarrow> nat \<Rightarrow> nat \<Rightarrow> publisher
     \<Rightarrow> effect list \<times> (error + row)" where
  "loopBody env cb screeningEntries responsesFolder screenshotsFolder total' i pub =
     (let safe = safeName (Name pub);
          fx1 = (if cb then [Progress (i + 1) total' (Name pub) (lit ''Searching SDN/ALT lists'')]
                 else []);
          matches = searchName (uppercase env) (JString (Name pub)) screeningEntries;
          status = (if length matches > 0 then lit ''MATCH'' else lit ''CLEAR'');
          jsonPath = responsesFolder @ lit ''/'' @ safe @ lit ''_'' @ show_nat (i + 1) @ lit ''.json''
      in if SAVE_JSON_RESPONSES \<and> \<not> json_write_ok env i then (fx1, Inl JsonWriteError)
         else
           (let fx2 = (if SAVE_JSON_RESPONSES then [WriteJson jsonPath matches] else []);
                screenshotPath =
                  screenshotsFolder @ lit ''/'' @ safe @ lit ''_'' @ show_nat (i + 1) @ lit ''.png'';
                fx3 = (if cb
                       then [Progress (i + 1) total' (Name pub)
                               (lit ''Taking screenshot for '' @ [0x22] @ Name pub @ [0x22])]
                       else []);
                fx4 = fst (takeScreenshot env i (Name pub) screenshotPath);
                screenshotLink = lit ''./screenshots/'' @ safe @ lit ''_'' @ show_nat (i + 1) @ lit ''.png''
            in (fx1 @ fx2 @ fx3 @ fx4,
                Inr \<lparr>Publisher = Name pub, MatchStatus = status, MatchCount = length matches,
                     Matches = matchesString matches,
                     Screenshot = \<lparr>text' = lit ''View Screenshot'', hyperlink = screenshotLink\<rparr>\<rparr>)))"

text \<open>\<open>for (let i = 0; i < total; i++)\<close> over \<open>publishers\<close>, from index \<open>i\<close> on; the rows are
  pushed in this order.\<close>

fun subjectLoop ::
  "env \<Rightarrow> bool \<Rightarrow> entry list \<Rightarrow> jsstring \<Rightarrow> jsstring \<Rightarrow> nat \<Rightarrow> nat \<Rightarrow> publisher list
     \<Rightarrow> effect list \<times> (error + row list)" where
  "subjectLoop env cb screeningEntries responsesFolder screenshotsFolder total' i [] = ([], Inr [])"
| "subjectLoop env cb screeningEntries responsesFolder screenshotsFolder total' i (pub # pubs) =
     (case loopBody env cb screeningEntries responsesFolder screenshotsFolder total' i pub of
        (fx, Inl e) \<Rightarrow> (fx, Inl e)
      | (fx, Inr r) \<Rightarrow>
          (case subjectLoop env cb screeningEntries responsesFolder screenshotsFolder total' (Suc i) pubs of
             (fx', Inl e) \<Rightarrow> (fx @ fx', Inl e)
           | (fx', Inr results) \<Rightarrow> (fx @ fx', Inr (r # results))))"

text \<open>The result is the log of effects, and the returned results folder or the error that
  ended the run.\<close>

definition runChecker :: "env \<Rightarrow> jsstring \<Rightarrow> jsstring \<Rightarrow> bool \<Rightarrow> effect list \<times> (error + jsstring)" where
  "runChecker env publishersFilePath downloadsFolder cb =
     (case loadCSVFolder (uppercase env) (csv_folder env) of
        Inl e \<Rightarrow> ([], Inl e)
      | Inr screeningEntries \<Rightarrow>
          (case read_workbook env publishersFilePath of
             None \<Rightarrow> ([], Inl WorkbookReadError)
           | Some sheet \<Rightarrow>
               (let publishers = map publisherOf sheet;
                    total' = length publishers;
                    resultsFolder = downloadsFolder @ lit ''/OFAC Results '' @ timestamp env;
                    screenshotsFolder = resultsFolder @ lit ''/screenshots'';
                    responsesFolder = resultsFolder @ lit ''/responses''
                in if \<not> launch_ok env then ([], Inl BrowserLaunchError)
                   else (case subjectLoop env cb screeningEntries responsesFolder screenshotsFolder
                                 total' 0 publishers of
                           (fx, Inl e) \<Rightarrow> (LaunchBrowser # fx, Inl e)
                         | (fx, Inr results) \<Rightarrow>
                             if report_write_ok env
                             then (LaunchBrowser # fx @
                                     [CloseBrowser,
                                      WriteReport (resultsFolder @ lit ''/OFAC_Results.xlsx'') results],
                                   Inr resultsFolder)
                             else (LaunchBrowser # fx @ [CloseBrowser], Inl ReportWriteError)))))"

text \<open>The reports written during a run, read off the log.\<close>

fun written_reports :: "effect list \<Rightarrow> row list list" where
  "written_reports [] = []"
| "written_reports (WriteReport p rows # fx) = rows # written_reports fx"
| "written_reports (e # fx) = written_reports fx"

section \<open>Progress channel (server.js, the upload route)\<close>

text \<open>
  What is written on the event stream: progress events and the terminal event. The
  connection \<open>currentSSE\<close> is taken to be either open for the whole request or absent.
  The route answers a thrown error with status 500; when the process has ended on an
  uncaught stream error there is no answer.
\<close>

datatype sse_event = SseProgress nat nat jsstring | SseDone jsstring

datatype http_response = Http400 | Http500 | HttpJson jsstring | NoResponse

fun sse_current :: "sse_event \<Rightarrow> nat" where
  "sse_current (SseProgress current total' status) = current"
| "sse_current (SseDone zipFilename) = 0"

fun is_done :: "sse_event \<Rightarrow> bool" where
  "is_done (SseDone zipFilename) = True"
| "is_done (SseProgress current total' status) = False"

text \<open>The callback the route passes to \<open>runChecker\<close>, applied to one entry of the log.\<close>

fun progressListener :: "bool \<Rightarrow> effect \<Rightarrow> sse_event list" where
  "progressListener attached (Progress current total' publisherName extraText) =
     (if attached
      then [SseProgress current total'
              (if extraText \<noteq> [] then extraText
               else lit ''Processing '' @ [0x22] @ publisherName @ [0x22] @ lit '' ('' @
                    show_nat current @ lit ''/'' @ show_nat total' @ lit '')...'')]
      else [])"
| "progressListener attached e = []"

definition upload :: "env \<Rightarrow> bool \<Rightarrow> jsstring option \<Rightarrow> sse_event list \<times> http_response" where
  "upload env attached file =
     (case file of
        None \<Rightarrow> ([], Http400)
      | Some uploadedPath \<Rightarrow>
          (case runChecker env uploadedPath (dirname env @ lit ''/temp'') True of
             (fx, Inl e) \<Rightarrow>
               (concat (map (progressListener attached) fx),
                if e = UncaughtStreamError then NoResponse else Http500)
           | (fx, Inr resultsFolder) \<Rightarrow>
               (let zipName = basename resultsFolder @ lit ''.zip''
                in if \<not> archive_ok env then (concat (map (progressListener attached) fx), Http500)
                   else (concat (map (progressListener attached) fx) @
                           (if attached then [SseDone zipName] else []),
                         HttpJson zipName))))"

section \<open>Auxiliary notions for the proofs\<close>

text \<open>A Unicode scalar value: a code point that is not a surrogate.\<close>

definition is_scalar_value :: "nat \<Rightarrow> bool" where
  "is_scalar_value c = (c < 0x110000 \<and> \<not> (0xD800 \<le> c \<and> c \<le> 0xDFFF))"

text \<open>A string of code units without unpaired surrogates: every leading surrogate is
  followed by a trailing one, and no trailing surrogate stands elsewhere.\<close>

fun well_formed :: "jsstring \<Rightarrow> bool" where
  "well_formed [] = True"
| "well_formed [u] = (u \<le> 0xFFFF \<and> \<not> is_leading_surrogate u \<and> \<not> is_trailing_surrogate u)"
| "well_formed (u # v # s) =
     (if is_leading_surrogate u then is_trailing_surrogate v \<and> well_formed s
      else u \<le> 0xFFFF \<and> \<not> is_trailing_surrogate u \<and> well_formed (v # s))"

text \<open>A text in which every white-space character is a single space between two other
  characters or at an end: the texts that \<open>collapse_spaces\<close> returns.\<close>

fun collapsed :: "jsstring \<Rightarrow> bool" where
  "collapsed [] = True"
| "collapsed [c] = (if is_space c then c = 0x20 else True)"
| "collapsed (c # d # cs) =
     ((if is_space c then c = 0x20 \<and> \<not> is_space d else True) \<and> collapsed (d # cs))"

text \<open>Full coverage: every subject token is a prefix of some token of the entry.\<close>

definition covers :: "jsstring list \<Rightarrow> entry \<Rightarrow> bool" where
  "covers pubWords e = list_all (\<lambda>pw. list_ex (\<lambda>ew. prefix pw ew) (words e)) pubWords"

text \<open>The row that the loop body pushes for subject \<open>i\<close>.\<close>

definition reportRow :: "case_table \<Rightarrow> entry list \<Rightarrow> nat \<Rightarrow> publisher \<Rightarrow> row" where
  "reportRow upper screeningEntries i pub =
     \<lparr>Publisher = Name pub,
      MatchStatus = (if length (searchName upper (JString (Name pub)) screeningEntries) > 0
                     then lit ''MATCH'' else lit ''CLEAR''),
      MatchCount = length (searchName upper (JString (Name pub)) screeningEntries),
      Matches = matchesString (searchName upper (JString (Name pub)) screeningEntries),
      Screenshot = \<lparr>text' = lit ''View Screenshot'',
                     hyperlink = lit ''./screenshots/'' @ safeName (Name pub) @ lit ''_''
                                   @ show_nat (i + 1) @ lit ''.png''\<rparr>\<rparr>"

text \<open>The two progress events of subject \<open>i\<close> on the event stream.\<close>

definition subjectEvents :: "nat \<Rightarrow> nat \<Rightarrow> publisher \<Rightarrow> sse_event list" where
  "subjectEvents total' i pub =
     [SseProgress (i + 1) total' (lit ''Searching SDN/ALT lists''),
      SseProgress (i + 1) total' (lit ''Taking screenshot for '' @ [0x22] @ Name pub @ [0x22])]"

text \<open>The screenshot files written during a run, read off the log.\<close>

fun saved_screenshots :: "effect list \<Rightarrow> jsstring list" where
  "saved_screenshots [] = []"
| "saved_screenshots (SaveScreenshot path # fx) = path # saved_screenshots fx"
| "saved_screenshots (e # fx) = saved_screenshots fx"

text \<open>The qualifying files of a folder; the failure of the first of a list of files whose
  stream fails; and the normalised non-empty cells of a list of files, in the order of
  loading.\<close>

definition csv_files :: "folder \<Rightarrow> folder" where
  "csv_files folder = filter (\<lambda>(f, content). suffix (lit ''.csv'') f) folder"

fun stream_failure :: "folder \<Rightarrow> error option" where
  "stream_failure [] = None"
| "stream_failure ((f, CsvUnreadable) # files) = Some UncaughtStreamError"
| "stream_failure ((f, CsvParserError) # files) = Some CsvStreamError"
| "stream_failure ((f, CsvRows rows) # files) = stream_failure files"

fun file_cells :: "jsstring \<times> csv_file \<Rightarrow> jsstring list" where
  "file_cells (f, CsvRows rows) = concat rows"
| "file_cells (f, CsvUnreadable) = []"
| "file_cells (f, CsvParserError) = []"

definition normalized_cells :: "case_table \<Rightarrow> folder \<Rightarrow> jsstring list" where
  "normalized_cells upper files =
     filter (\<lambda>normalized. normalized \<noteq> [])
       (map (\<lambda>val. normalizeText upper (JString val)) (concat (map file_cells files)))"

section \<open>Example runs\<close>

text \<open>A part of the Unicode upper-case mapping: the letters a to z, \<open>U+00E9\<close>, the sharp s
  (which becomes two letters) and the Deseret letter \<open>U+10428\<close>; every other code point is
  taken to be mapped to itself.\<close>

definition example_table :: case_table where
  "example_table c =
     (if 0x61 \<le> c \<and> c \<le> 0x7A then [c - 0x20]
      else if c = 0xE9 then [0xC9]
      else if c = 0xDF then [0x53, 0x53]
      else if c = 0x10428 then [0x10400]
      else [c])"

text \<open>A corpus of two names and a sheet of three rows, the second without a name column;
  the capture of the first subject throws while typing the name.\<close>

definition example_entries :: "entry list" where
  "example_entries =
     [\<lparr>id_entry = lit ''entry_1'', name = lit ''JOHN SMITH'', words = [lit ''JOHN'', lit ''SMITH'']\<rparr>,
      \<lparr>id_entry = lit ''entry_2'', name = lit ''JOHN SMITHSON'',
        words = [lit ''JOHN'', lit ''SMITHSON'']\<rparr>]"

definition example_sheet :: "sheet_row list" where
  "example_sheet =
     [[(lit ''Name'', lit ''John Smit'')], [(lit ''Country'', lit ''FR'')],
      [(lit ''Name'', lit ''Jane Doe'')]]"

definition example_env :: env where
  "example_env =
     \<lparr>uppercase = example_table,
      csv_folder = [(lit ''sdn.csv'', CsvRows [[lit ''John Smith'', lit ''-''], [lit ''John  Smithson.'']]),
                    (lit ''notes.txt'', CsvUnreadable)],
      read_workbook = (\<lambda>p. Some example_sheet),
      timestamp = lit ''2024-01-01T00-00-00-000Z'',
      launch_ok = True,
      json_write_ok = (\<lambda>i. True),
      page_failure = (\<lambda>i. if i = 0 then Some TypeName else None),
      report_write_ok = True,
      archive_ok = True,
      dirname = lit ''/app''\<rparr>"

text \<open>A corpus of one very long name, matched by the one subject of the sheet.\<close>

definition long_name :: jsstring where
  "long_name = replicate 32001 0x41"

definition long_env :: env where
  "long_env = example_env\<lparr>csv_folder := [(lit ''sdn.csv'', CsvRows [[long_name]])],
                          read_workbook := (\<lambda>p. Some [[(lit ''Name'', lit ''A'')]])\<rparr>"

declare show_nat.simps [simp del]

section \<open>Normalisation is idempotent on well-formed strings\<close>

lemma is_space_space: "is_space 0x20"
  by (simp add: is_space_def)

lemma not_punct_space: "\<not> is_punct 0x20"
  by (simp add: is_punct_def)

lemma set_collapse_spaces: "set (collapse_spaces s) \<subseteq> insert 0x20 (set s)"
proof (induction s rule: collapse_spaces.induct)
  case 1
  show ?case by simp
next
  case (2 c cs)
  show ?case
  proof (cases "is_space c")
    case True
    have "set (dropWhile is_space cs) \<subseteq> set cs"
      by (rule subsetI) (rule set_dropWhileD)
    moreover have "set (collapse_spaces (dropWhile is_space cs))
        \<subseteq> insert 0x20 (set (dropWhile is_space cs))"
      using 2(1) True by simp
    ultimately have "set (collapse_spaces (dropWhile is_space cs)) \<subseteq> insert 0x20 (set cs)"
      by blast
    with True show ?thesis by auto
  next
    case False
    with 2(2) have "set (collapse_spaces cs) \<subseteq> insert 0x20 (set cs)" by simp
    with False show ?thesis by auto
  qed
qed

lemma collapse_spaces_head:
  "s = [] \<or> \<not> is_space (hd s) \<Longrightarrow>
   collapse_spaces s = [] \<or> \<not> is_space (hd (collapse_spaces s))"
  by (cases s) auto

lemma dropWhile_head: "dropWhile P s = [] \<or> \<not> P (hd (dropWhile P s))"
  using hd_dropWhile by blast

lemma collapsed_Cons_space:
  "collapsed t \<Longrightarrow> t = [] \<or> \<not> is_space (hd t) \<Longrightarrow> collapsed (0x20 # t)"
  by (cases t) (auto simp: is_space_space)

lemma collapsed_Cons_other: "collapsed t \<Longrightarrow> \<not> is_space c \<Longrightarrow> collapsed (c # t)"
  by (cases t) auto

lemma collapsed_collapse_spaces: "collapsed (collapse_spaces s)"
proof (induction s rule: collapse_spaces.induct)
  case 1
  show ?case by simp
next
  case (2 c cs)
  show ?case
  proof (cases "is_space c")
    case True
    with 2 have "collapsed (collapse_spaces (dropWhile is_space cs))" by simp
    moreover have "collapse_spaces (dropWhile is_space cs) = [] \<or>
        \<not> is_space (hd (collapse_spaces (dropWhile is_space cs)))"
      by (rule collapse_spaces_head) (rule dropWhile_head)
    ultimately show ?thesis using True by (simp add: collapsed_Cons_space)
  next
    case False
    with 2 show ?thesis by (simp add: collapsed_Cons_other)
  qed
qed

lemma collapsed_tl: "collapsed (c # s) \<Longrightarrow> collapsed s"
  by (cases s) auto

lemma collapse_spaces_collapsed: "collapsed s \<Longrightarrow> collapse_spaces s = s"
proof (induction s rule: collapsed.induct)
  case 1
  show ?case by simp
next
  case (2 c)
  then show ?case by (auto split: if_splits)
next
  case (3 c d cs)
  then show ?case by (auto split: if_splits)
qed

lemma collapsed_append: "collapsed (xs @ ys) \<Longrightarrow> collapsed xs"
proof (induction xs rule: collapsed.induct)
  case 1
  show ?case by simp
next
  case (2 c)
  then show ?case by (cases ys) (auto split: if_splits)
next
  case (3 c d cs)
  then show ?case by (auto split: if_splits)
qed

lemma collapsed_dropWhile: "collapsed s \<Longrightarrow> collapsed (dropWhile P s)"
proof (induction s)
  case Nil
  show ?case by simp
next
  case (Cons c s)
  then show ?case using collapsed_tl [of c s] by auto
qed

lemma trim_prefix: "\<exists>ys. dropWhile is_space s = trim s @ ys"
proof -
  have "rev (dropWhile is_space s) =
      takeWhile is_space (rev (dropWhile is_space s)) @ dropWhile is_space (rev (dropWhile is_space s))"
    by simp
  then have "dropWhile is_space s =
      rev (dropWhile is_space (rev (dropWhile is_space s))) @ rev (takeWhile is_space (rev (dropWhile is_space s)))"
    by (metis rev_append rev_rev_ident)
  then show ?thesis unfolding trim_def by blast
qed

lemma collapsed_trim: "collapsed s \<Longrightarrow> collapsed (trim s)"
proof -
  assume "collapsed s"
  then have "collapsed (dropWhile is_space s)" by (rule collapsed_dropWhile)
  moreover obtain ys where "dropWhile is_space s = trim s @ ys" using trim_prefix by blast
  ultimately show ?thesis using collapsed_append by simp
qed

lemma trim_head: "trim s = [] \<or> \<not> is_space (hd (trim s))"
proof (cases "trim s")
  case Nil
  then show ?thesis by simp
next
  case (Cons c t)
  obtain ys where ys: "dropWhile is_space s = trim s @ ys" using trim_prefix by blast
  with Cons have "hd (dropWhile is_space s) = c" "dropWhile is_space s \<noteq> []" by simp_all
  then have "\<not> is_space c" using hd_dropWhile by metis
  with Cons show ?thesis by simp
qed

lemma dropWhile_id: "s = [] \<or> \<not> P (hd s) \<Longrightarrow> dropWhile P s = s"
  by (cases s) auto

lemma trim_idem: "trim (trim s) = trim s"
proof -
  have "dropWhile is_space (trim s) = trim s"
    by (rule dropWhile_id) (rule trim_head)
  then have "trim (trim s) = rev (dropWhile is_space (rev (trim s)))"
    by (simp add: trim_def)
  also have "\<dots> = trim s"
    by (simp add: trim_def dropWhile_idem)
  finally show ?thesis .
qed

lemma set_trim: "set (trim s) \<subseteq> set s"
proof -
  obtain ys where "dropWhile is_space s = trim s @ ys" using trim_prefix by blast
  then have "set (trim s) \<subseteq> set (dropWhile is_space s)" by simp
  also have "\<dots> \<subseteq> set s" by (rule subsetI) (rule set_dropWhileD)
  finally show ?thesis .
qed

lemma normalizeText_JString:
  "normalizeText upper (JString s) = trim (collapse_spaces (strip_punct (toUpperCase upper s)))"
  by (simp add: trim_def strip_punct_def toUpperCase_def CodePointsToString_def)

lemma set_squeezed:
  "set (trim (collapse_spaces (strip_punct zs))) \<subseteq> insert 0x20 {c \<in> set zs. \<not> is_punct c}"
proof -
  have "set (trim (collapse_spaces (strip_punct zs))) \<subseteq> set (collapse_spaces (strip_punct zs))"
    by (rule set_trim)
  also have "\<dots> \<subseteq> insert 0x20 (set (strip_punct zs))"
    by (rule set_collapse_spaces)
  also have "set (strip_punct zs) = {c \<in> set zs. \<not> is_punct c}"
    by (simp add: strip_punct_def)
  finally show ?thesis .
qed

lemma strip_punct_squeezed:
  "strip_punct (trim (collapse_spaces (strip_punct zs))) = trim (collapse_spaces (strip_punct zs))"
  unfolding strip_punct_def [of "trim (collapse_spaces (strip_punct zs))"] filter_id_conv
  using set_squeezed [of zs] by (auto simp: not_punct_space)

lemma squeezed_idem:
  "trim (collapse_spaces (strip_punct (trim (collapse_spaces (strip_punct zs)))))
     = trim (collapse_spaces (strip_punct zs))"
proof -
  have "collapsed (trim (collapse_spaces (strip_punct zs)))"
    by (rule collapsed_trim) (rule collapsed_collapse_spaces)
  then have "collapse_spaces (trim (collapse_spaces (strip_punct zs)))
      = trim (collapse_spaces (strip_punct zs))"
    by (rule collapse_spaces_collapsed)
  then show ?thesis
    by (simp only: strip_punct_squeezed trim_idem)
qed

lemma scalar_space: "is_scalar_value 0x20"
  by (simp add: is_scalar_value_def)

lemma encode_bmp:
  "is_scalar_value c \<Longrightarrow> c \<le> 0xFFFF \<Longrightarrow>
   UTF16EncodeCodePoint c = [c] \<and> \<not> is_leading_surrogate c \<and> \<not> is_trailing_surrogate c"
  by (auto simp: UTF16EncodeCodePoint_def is_scalar_value_def is_leading_surrogate_def
      is_trailing_surrogate_def)

lemma encode_astral:
  assumes "is_scalar_value c" and "\<not> c \<le> 0xFFFF"
  shows "\<exists>h l. UTF16EncodeCodePoint c = [h, l] \<and> is_leading_surrogate h \<and> is_trailing_surrogate l
     \<and> 0x10000 + (h - 0xD800) * 0x400 + (l - 0xDC00) = c"
proof -
  define q where "q = (c - 0x10000) div 0x400"
  define r where "r = (c - 0x10000) mod 0x400"
  from assms have c: "0x10000 \<le> c" "c < 0x110000"
    by (simp_all add: is_scalar_value_def)
  have r: "r < 0x400" unfolding r_def by simp
  from c have "c - 0x10000 < 0x400 * 0x400" by simp
  then have q: "q < 0x400" unfolding q_def by (simp add: div_less_iff_less_mult)
  have qr: "c - 0x10000 = q * 0x400 + r"
    unfolding q_def r_def by simp
  with c have "0x10000 + q * 0x400 + r = c" by simp
  moreover have "UTF16EncodeCodePoint c = [q + 0xD800, r + 0xDC00]"
    using assms(2) by (simp add: UTF16EncodeCodePoint_def q_def r_def)
  moreover have "is_leading_surrogate (q + 0xD800)"
    using q by (simp add: is_leading_surrogate_def)
  moreover have "is_trailing_surrogate (r + 0xDC00)"
    using r by (simp add: is_trailing_surrogate_def)
  ultimately show ?thesis by simp
qed

lemma decode_not_leading:
  "\<not> is_leading_surrogate u \<Longrightarrow> StringToCodePoints (u # s) = u # StringToCodePoints s"
  by (cases s) simp_all

lemma decode_encode:
  "list_all is_scalar_value cps \<Longrightarrow> StringToCodePoints (CodePointsToString cps) = cps"
proof (induction cps)
  case Nil
  show ?case by (simp add: CodePointsToString_def)
next
  case (Cons c cps)
  then have c: "is_scalar_value c" and IH: "StringToCodePoints (CodePointsToString cps) = cps"
    by simp_all
  show ?case
  proof (cases "c \<le> 0xFFFF")
    case True
    from encode_bmp [OF c True] IH show ?thesis
      by (simp add: CodePointsToString_def decode_not_leading)
  next
    case False
    from encode_astral [OF c False] obtain h l where
      "UTF16EncodeCodePoint c = [h, l]" "is_leading_surrogate h" "is_trailing_surrogate l"
      "0x10000 + (h - 0xD800) * 0x400 + (l - 0xDC00) = c"
      by blast
    with IH show ?thesis
      by (simp add: CodePointsToString_def)
  qed
qed

text \<open>A class of code units that holds no surrogate, such as white space or the
  punctuation of the program, is found at the same places in a list of scalar values and
  in its encoding.\<close>

lemma encode_units:
  assumes "\<And>u. P u \<Longrightarrow> u < 0xD800 \<or> (0xDFFF < u \<and> u \<le> 0xFFFF)" and "is_scalar_value c"
  shows "(P c \<and> UTF16EncodeCodePoint c = [c])
     \<or> (\<not> P c \<and> UTF16EncodeCodePoint c \<noteq> [] \<and> (\<forall>u \<in> set (UTF16EncodeCodePoint c). \<not> P u))"
proof (cases "c \<le> 0xFFFF")
  case True
  with encode_bmp [OF assms(2) True] show ?thesis by auto
next
  case False
  from encode_astral [OF assms(2) False] obtain h l where
    hl: "UTF16EncodeCodePoint c = [h, l]" "is_leading_surrogate h" "is_trailing_surrogate l"
    by blast
  from hl(2) have "\<not> P h" using assms(1) [of h] by (auto simp: is_leading_surrogate_def)
  moreover from hl(3) have "\<not> P l" using assms(1) [of l] by (auto simp: is_trailing_surrogate_def)
  moreover from False have "\<not> P c" using assms(1) [of c] by auto
  ultimately show ?thesis using hl(1) by simp
qed

lemma filter_encode:
  assumes "\<And>u. P u \<Longrightarrow> u < 0xD800 \<or> (0xDFFF < u \<and> u \<le> 0xFFFF)"
    and "list_all is_scalar_value cps"
  shows "filter (\<lambda>u. \<not> P u) (CodePointsToString cps) = CodePointsToString (filter (\<lambda>u. \<not> P u) cps)"
  using assms(2)
proof (induction cps)
  case Nil
  show ?case by (simp add: CodePointsToString_def)
next
  case (Cons c cps)
  then have c: "is_scalar_value c"
    and IH: "filter (\<lambda>u. \<not> P u) (CodePointsToString cps) = CodePointsToString (filter (\<lambda>u. \<not> P u) cps)"
    by simp_all
  from encode_units [of P c, OF assms(1) c] IH show ?case
    by (auto simp: CodePointsToString_def filter_id_conv)
qed

lemma dropWhile_encode:
  assumes "\<And>u. P u \<Longrightarrow> u < 0xD800 \<or> (0xDFFF < u \<and> u \<le> 0xFFFF)"
    and "list_all is_scalar_value cps"
  shows "dropWhile P (CodePointsToString cps) = CodePointsToString (dropWhile P cps)"
  using assms(2)
proof (induction cps)
  case Nil
  show ?case by (simp add: CodePointsToString_def)
next
  case (Cons c cps)
  then have c: "is_scalar_value c"
    and IH: "dropWhile P (CodePointsToString cps) = CodePointsToString (dropWhile P cps)"
    by simp_all
  from encode_units [of P c, OF assms(1) c] show ?case
  proof
    assume "P c \<and> UTF16EncodeCodePoint c = [c]"
    with IH show ?thesis by (simp add: CodePointsToString_def)
  next
    assume a: "\<not> P c \<and> UTF16EncodeCodePoint c \<noteq> [] \<and> (\<forall>u \<in> set (UTF16EncodeCodePoint c). \<not> P u)"
    then have "\<not> P (hd (UTF16EncodeCodePoint c))" by simp
    with a show ?thesis
      by (cases "UTF16EncodeCodePoint c") (simp_all add: CodePointsToString_def)
  qed
qed

lemma space_not_surrogate: "is_space u \<Longrightarrow> u < 0xD800 \<or> (0xDFFF < u \<and> u \<le> 0xFFFF)"
  by (auto simp: is_space_def)

lemma punct_not_surrogate: "is_punct u \<Longrightarrow> u < 0xD800 \<or> (0xDFFF < u \<and> u \<le> 0xFFFF)"
  by (auto simp: is_punct_def)

lemma strip_punct_encode:
  "list_all is_scalar_value cps \<Longrightarrow>
   strip_punct (CodePointsToString cps) = CodePointsToString (strip_punct cps)"
  unfolding strip_punct_def by (rule filter_encode) (rule punct_not_surrogate)

lemma scalar_dropWhile: "list_all is_scalar_value cps \<Longrightarrow> list_all is_scalar_value (dropWhile P cps)"
  by (auto simp: list_all_iff dest: set_dropWhileD)

lemma collapse_spaces_encode:
  "list_all is_scalar_value cps \<Longrightarrow>
   collapse_spaces (CodePointsToString cps) = CodePointsToString (collapse_spaces cps)"
proof (induction cps rule: collapse_spaces.induct)
  case 1
  show ?case by (simp add: CodePointsToString_def)
next
  case (2 c cps)
  from "2.prems" have c: "is_scalar_value c" and cps: "list_all is_scalar_value cps"
    by simp_all
  from encode_units [of is_space c, OF space_not_surrogate c] show ?case
  proof
    assume a: "is_space c \<and> UTF16EncodeCodePoint c = [c]"
    then have "collapse_spaces (dropWhile is_space (CodePointsToString cps))
        = CodePointsToString (collapse_spaces (dropWhile is_space cps))"
      using "2.IH"(1) [OF _ scalar_dropWhile [OF cps]]
      by (simp add: dropWhile_encode [OF space_not_surrogate cps])
    with a show ?thesis
      by (simp add: CodePointsToString_def UTF16EncodeCodePoint_def)
  next
    assume a: "\<not> is_space c \<and> UTF16EncodeCodePoint c \<noteq> []
        \<and> (\<forall>u \<in> set (UTF16EncodeCodePoint c). \<not> is_space u)"
    then have IH: "collapse_spaces (CodePointsToString cps) = CodePointsToString (collapse_spaces cps)"
      using "2.IH"(2) [OF _ cps] by simp
    have pre: "collapse_spaces (us @ s) = us @ collapse_spaces s" if "\<forall>u \<in> set us. \<not> is_space u" for us s
      using that by (induction us) simp_all
    from a IH show ?thesis
      by (simp add: CodePointsToString_def pre)
  qed
qed

lemma trim_end_encode:
  "list_all is_scalar_value cps \<Longrightarrow>
   rev (dropWhile is_space (rev (CodePointsToString cps)))
     = CodePointsToString (rev (dropWhile is_space (rev cps)))"
proof (induction cps rule: rev_induct)
  case Nil
  show ?case by (simp add: CodePointsToString_def)
next
  case (snoc c cps)
  then have c: "is_scalar_value c"
    and IH: "rev (dropWhile is_space (rev (CodePointsToString cps)))
        = CodePointsToString (rev (dropWhile is_space (rev cps)))"
    by simp_all
  from encode_units [of is_space c, OF space_not_surrogate c] show ?case
  proof
    assume "is_space c \<and> UTF16EncodeCodePoint c = [c]"
    with IH show ?thesis by (simp add: CodePointsToString_def)
  next
    assume a: "\<not> is_space c \<and> UTF16EncodeCodePoint c \<noteq> []
        \<and> (\<forall>u \<in> set (UTF16EncodeCodePoint c). \<not> is_space u)"
    then have "rev (UTF16EncodeCodePoint c) \<noteq> []" "\<not> is_space (hd (rev (UTF16EncodeCodePoint c)))"
      by (simp_all add: hd_rev)
    then have "dropWhile is_space (rev (UTF16EncodeCodePoint c) @ rev (CodePointsToString cps))
        = rev (UTF16EncodeCodePoint c) @ rev (CodePointsToString cps)"
      by (cases "rev (UTF16EncodeCodePoint c)") simp_all
    with a show ?thesis by (simp add: CodePointsToString_def)
  qed
qed

lemma trim_encode:
  assumes "list_all is_scalar_value cps"
  shows "trim (CodePointsToString cps) = CodePointsToString (trim cps)"
proof -
  have "trim (CodePointsToString cps)
      = rev (dropWhile is_space (rev (CodePointsToString (dropWhile is_space cps))))"
    by (simp only: trim_def dropWhile_encode [of is_space, OF space_not_surrogate assms])
  also have "\<dots> = CodePointsToString (rev (dropWhile is_space (rev (dropWhile is_space cps))))"
    by (rule trim_end_encode) (rule scalar_dropWhile [OF assms])
  finally show ?thesis by (simp only: trim_def)
qed

lemma scalar_squeezed:
  assumes "list_all is_scalar_value zs"
  shows "list_all is_scalar_value (strip_punct zs)"
    and "list_all is_scalar_value (collapse_spaces (strip_punct zs))"
    and "list_all is_scalar_value (trim (collapse_spaces (strip_punct zs)))"
proof -
  show 1: "list_all is_scalar_value (strip_punct zs)"
    using assms by (simp add: strip_punct_def list_all_iff)
  show 2: "list_all is_scalar_value (collapse_spaces (strip_punct zs))"
    using 1 set_collapse_spaces [of "strip_punct zs"] by (auto simp: list_all_iff scalar_space)
  show "list_all is_scalar_value (trim (collapse_spaces (strip_punct zs)))"
    using 2 set_trim [of "collapse_spaces (strip_punct zs)"] by (auto simp: list_all_iff)
qed

lemma normalizeText_encode:
  assumes "\<And>c d. is_scalar_value c \<Longrightarrow> d \<in> set (upper c) \<Longrightarrow> is_scalar_value d"
    and "list_all is_scalar_value cps"
  shows "normalizeText upper (JString (CodePointsToString cps))
     = CodePointsToString (trim (collapse_spaces (strip_punct (concat (map upper cps)))))"
proof -
  have zs: "list_all is_scalar_value (concat (map upper cps))"
    using assms by (auto simp: list_all_iff)
  show ?thesis
    by (simp only: normalizeText_JString toUpperCase_def decode_encode [OF assms(2)]
        strip_punct_encode [OF zs] collapse_spaces_encode [OF scalar_squeezed(1) [OF zs]]
        trim_encode [OF scalar_squeezed(2) [OF zs]])
qed

lemma concat_map_fixed: "(\<And>d. d \<in> set ys \<Longrightarrow> f d = [d]) \<Longrightarrow> concat (map f ys) = ys"
  by (induction ys) simp_all

text \<open>The strings without unpaired surrogates are the encodings of the lists of scalar
  values.\<close>

lemma encode_pair:
  assumes "is_leading_surrogate u" and "is_trailing_surrogate v"
  shows "UTF16EncodeCodePoint (0x10000 + (u - 0xD800) * 0x400 + (v - 0xDC00)) = [u, v]
     \<and> is_scalar_value (0x10000 + (u - 0xD800) * 0x400 + (v - 0xDC00))"
proof -
  define q where "q = u - 0xD800"
  define r where "r = v - 0xDC00"
  from assms have q: "q < 0x400" "u = q + 0xD800" and r: "r < 0x400" "v = r + 0xDC00"
    by (auto simp: q_def r_def is_leading_surrogate_def is_trailing_surrogate_def)
  have d: "(q * 0x400 + r) div 0x400 = q" and m: "(q * 0x400 + r) mod 0x400 = r"
    using r(1) by simp_all
  from q(1) have "q * 0x400 \<le> 0x3FF * 0x400" by simp
  with r(1) have lt: "q * 0x400 + r < 0x100000" by simp
  have e: "0x10000 + q * 0x400 + r - 0x10000 = q * 0x400 + r" by simp
  have "UTF16EncodeCodePoint (0x10000 + q * 0x400 + r) = [q + 0xD800, r + 0xDC00]"
    unfolding UTF16EncodeCodePoint_def e d m by simp
  moreover from lt have "is_scalar_value (0x10000 + q * 0x400 + r)"
    by (simp add: is_scalar_value_def)
  ultimately show ?thesis
    unfolding q_def [symmetric] r_def [symmetric] by (simp add: q(2) r(2))
qed

lemma well_formed_encode:
  "well_formed s \<Longrightarrow>
   list_all is_scalar_value (StringToCodePoints s) \<and> CodePointsToString (StringToCodePoints s) = s"
proof (induction s rule: StringToCodePoints.induct)
  case 1
  show ?case by (simp add: CodePointsToString_def)
next
  case (2 u)
  then show ?case
    by (auto simp: CodePointsToString_def UTF16EncodeCodePoint_def is_scalar_value_def
        is_leading_surrogate_def is_trailing_surrogate_def)
next
  case (3 u v s)
  show ?case
  proof (cases "is_leading_surrogate u")
    case True
    with "3.prems" have v: "is_trailing_surrogate v" and s: "well_formed s"
      by simp_all
    from "3.IH"(1) True v s have IH: "list_all is_scalar_value (StringToCodePoints s)"
      "CodePointsToString (StringToCodePoints s) = s"
      by simp_all
    from encode_pair [OF True v] IH True v show ?thesis
      by (simp add: CodePointsToString_def)
  next
    case False
    with "3.prems" have u: "u \<le> 0xFFFF" "\<not> is_trailing_surrogate u" and s: "well_formed (v # s)"
      by simp_all
    from "3.IH"(2) False s have IH: "list_all is_scalar_value (StringToCodePoints (v # s))"
      "CodePointsToString (StringToCodePoints (v # s)) = v # s"
      by simp_all
    from u False have "is_scalar_value u" "UTF16EncodeCodePoint u = [u]"
      by (auto simp: is_scalar_value_def UTF16EncodeCodePoint_def is_leading_surrogate_def
          is_trailing_surrogate_def)
    with IH False show ?thesis
      by (simp add: CodePointsToString_def)
  qed
qed

lemma normalizeText_encoded_idempotent:
  assumes "\<And>c d. d \<in> set (upper c) \<Longrightarrow> upper d = [d]"
    and "\<And>c d. is_scalar_value c \<Longrightarrow> d \<in> set (upper c) \<Longrightarrow> is_scalar_value d"
    and "upper 0x20 = [0x20]"
    and "list_all is_scalar_value cps"
  shows "normalizeText upper (JString (normalizeText upper (JString (CodePointsToString cps))))
       = normalizeText upper (JString (CodePointsToString cps))"
proof -
  define zs where "zs = concat (map upper cps)"
  define ys where "ys = trim (collapse_spaces (strip_punct zs))"
  have zs: "list_all is_scalar_value zs"
    unfolding zs_def using assms(2,4) by (auto simp: list_all_iff)
  have ys: "list_all is_scalar_value ys"
    unfolding ys_def by (rule scalar_squeezed(3) [OF zs])
  have first: "normalizeText upper (JString (CodePointsToString cps)) = CodePointsToString ys"
    unfolding ys_def zs_def by (rule normalizeText_encode [OF assms(2,4)])
  have "upper d = [d]" if "d \<in> set ys" for d
  proof -
    from that set_squeezed [of zs] have "d = 0x20 \<or> d \<in> set zs"
      unfolding ys_def by auto
    then show ?thesis
      using assms(1,3) unfolding zs_def by auto
  qed
  then have fixed: "concat (map upper ys) = ys"
    by (rule concat_map_fixed)
  have "normalizeText upper (JString (CodePointsToString ys))
      = CodePointsToString (trim (collapse_spaces (strip_punct ys)))"
    by (simp only: normalizeText_encode [OF assms(2) ys] fixed)
  also have "trim (collapse_spaces (strip_punct ys)) = ys"
    unfolding ys_def by (rule squeezed_idem)
  finally have "normalizeText upper (JString (CodePointsToString ys)) = CodePointsToString ys" .
  then show ?thesis
    by (simp only: first)
qed

text \<open>
  C9, as amended. On every string without unpaired surrogates \<open>normalizeText\<close> is
  idempotent: normalising the text it returns gives that text again. This holds for every
  upper-case table whose images are themselves upper case (mapped to themselves), which
  sends scalar values to scalar values and leaves the space alone, as the table of the
  Unicode Character Database does. And \<open>null\<close>, \<open>undefined\<close> and the empty string are mapped
  to the empty string.
\<close>

theorem normalizeText_idempotent:
  assumes "\<And>c d. d \<in> set (upper c) \<Longrightarrow> upper d = [d]"
    and "\<And>c d. is_scalar_value c \<Longrightarrow> d \<in> set (upper c) \<Longrightarrow> is_scalar_value d"
    and "upper 0x20 = [0x20]"
    and "well_formed x"
  shows "normalizeText upper (JString (normalizeText upper (JString x)))
       = normalizeText upper (JString x)
     \<and> normalizeText upper JNull = [] \<and> normalizeText upper JUndefined = []
     \<and> normalizeText upper (JString []) = []"
proof -
  from well_formed_encode [OF assms(4)]
  have cps: "list_all is_scalar_value (StringToCodePoints x)"
    and x: "CodePointsToString (StringToCodePoints x) = x"
    by simp_all
  from normalizeText_encoded_idempotent [OF assms(1,2,3) cps]
  have "normalizeText upper (JString (normalizeText upper (JString x)))
       = normalizeText upper (JString x)"
    unfolding x .
  then show ?thesis
    by (intro conjI) simp_all
qed

lemma example_table_stable: "d \<in> set (example_table c) \<Longrightarrow> example_table d = [d]"
  by (auto simp: example_table_def split: if_splits)

lemma example_table_scalar:
  "is_scalar_value c \<Longrightarrow> d \<in> set (example_table c) \<Longrightarrow> is_scalar_value d"
  by (auto simp: example_table_def is_scalar_value_def split: if_splits)

lemma example_table_space: "example_table 0x20 = [0x20]"
  by (simp add: example_table_def)

text \<open>A string with a no-break space, \<open>U+00E9\<close>, a hyphen, a sharp s, a line separator,
  the letter \<open>a\<close>, the Deseret letter \<open>U+10428\<close> (a surrogate pair) and an ideographic space:
  its normal form is \<open>U+00C9\<close>, \<open>SS\<close>, a space, \<open>A\<close> and the letter \<open>U+10400\<close>, and normalising
  that again changes nothing.\<close>

theorem normalizeText_idempotent_witness:
  "well_formed [0x20, 0xA0, 0xE9, 0x2D, 0xDF, 0x2028, 0x61, 0xD801, 0xDC28, 0x3000]
   \<and> normalizeText example_table
        (JString [0x20, 0xA0, 0xE9, 0x2D, 0xDF, 0x2028, 0x61, 0xD801, 0xDC28, 0x3000])
     = [0xC9, 0x53, 0x53, 0x20, 0x41, 0xD801, 0xDC00]
   \<and> normalizeText example_table (JString [0xC9, 0x53, 0x53, 0x20, 0x41, 0xD801, 0xDC00])
     = [0xC9, 0x53, 0x53, 0x20, 0x41, 0xD801, 0xDC00]"
proof -
  have w: "well_formed [0x20, 0xA0, 0xE9, 0x2D, 0xDF, 0x2028, 0x61, 0xD801, 0xDC28, 0x3000]"
    by code_simp
  have v: "normalizeText example_table
      (JString [0x20, 0xA0, 0xE9, 0x2D, 0xDF, 0x2028, 0x61, 0xD801, 0xDC28, 0x3000])
     = [0xC9, 0x53, 0x53, 0x20, 0x41, 0xD801, 0xDC00]"
    by code_simp
  from normalizeText_idempotent [OF example_table_stable example_table_scalar example_table_space w]
  have "normalizeText example_table (JString [0xC9, 0x53, 0x53, 0x20, 0x41, 0xD801, 0xDC00])
     = [0xC9, 0x53, 0x53, 0x20, 0x41, 0xD801, 0xDC00]"
    by (simp only: v)
  with w v show ?thesis
    by (intro conjI)
qed

lemma unpaired_not_well_formed: "\<not> well_formed [0xD801, 0x2D, 0xDC28]"
  by code_simp

text \<open>
  C9 as stated fails on a string with unpaired surrogates: in \<open>"\uD801-\uDC28"\<close> the two
  surrogates are apart and not letters; deleting the hyphen joins them into the letter
  \<open>U+10428\<close>, which a second normalisation turns into \<open>U+10400\<close>.
\<close>

theorem normalizeText_not_idempotent:
  "normalizeText example_table (JString [0xD801, 0x2D, 0xDC28]) = [0xD801, 0xDC28]
   \<and> normalizeText example_table (JString (normalizeText example_table (JString [0xD801, 0x2D, 0xDC28])))
     = [0xD801, 0xDC00]
   \<and> normalizeText example_table (JString (normalizeText example_table (JString [0xD801, 0x2D, 0xDC28])))
     \<noteq> normalizeText example_table (JString [0xD801, 0x2D, 0xDC28])"
proof -
  have 1: "normalizeText example_table (JString [0xD801, 0x2D, 0xDC28]) = [0xD801, 0xDC28]"
    by code_simp
  have 2: "normalizeText example_table (JString [0xD801, 0xDC28]) = [0xD801, 0xDC00]"
    by code_simp
  show ?thesis
    by (simp only: 1 2) simp
qed

section \<open>Matching\<close>

lemma js_split_nonempty: "js_split s \<noteq> []"
  by (induction s) (auto split: list.splits)

lemma searchName_body:
  assumes "pws \<noteq> []"
  shows "(let matchedWords = filter (\<lambda>pw. list_ex (\<lambda>ew. prefix pw ew) (words e)) pws;
              sc = (of_nat (length matchedWords) :: rat) / of_nat (length pws)
          in if sc = 1 then Some \<lparr>id_match = id_entry e, matchedName = name e, score = sc\<rparr>
             else None)
       = (if covers pws e then Some \<lparr>id_match = id_entry e, matchedName = name e, score = 1\<rparr>
          else None)"
proof (cases "covers pws e")
  case True
  then have "filter (\<lambda>pw. list_ex (\<lambda>ew. prefix pw ew) (words e)) pws = pws"
    by (simp add: covers_def list_all_iff)
  with assms True show ?thesis by (simp add: Let_def)
next
  case False
  then obtain x where "x \<in> set pws" "\<not> list_ex (\<lambda>ew. prefix x ew) (words e)"
    by (auto simp: covers_def list_all_iff)
  then have "length (filter (\<lambda>pw. list_ex (\<lambda>ew. prefix pw ew) (words e)) pws) < length pws"
    by (rule length_filter_less)
  with assms False show ?thesis by (simp add: Let_def)
qed

lemma map_filter_if:
  "List.map_filter (\<lambda>x. if P x then Some (f x) else None) xs = map f (filter P xs)"
  by (induction xs) (simp_all add: map_filter_def)

lemma searchName_eq:
  "searchName upper p es =
     map (\<lambda>e. \<lparr>id_match = id_entry e, matchedName = name e, score = 1\<rparr>)
       (filter (covers (js_split (normalizeText upper p))) es)"
proof -
  have "searchName upper p es =
      List.map_filter (\<lambda>e. if covers (js_split (normalizeText upper p)) e
         then Some \<lparr>id_match = id_entry e, matchedName = name e, score = 1\<rparr> else None) es"
    unfolding searchName_def Let_def [of "js_split (normalizeText upper p)"]
    by (simp only: searchName_body [OF js_split_nonempty])
  then show ?thesis by (simp only: map_filter_if)
qed

lemma covers_iff:
  "covers pws e = (\<forall>pw \<in> set pws. \<exists>ew \<in> set (words e). prefix pw ew)"
  by (simp add: covers_def list_all_iff list_ex_iff)

text \<open>
  C2. For every subject name and every corpus, \<open>searchName\<close> returns, in corpus order, exactly
  the entries for which every token of the normalised subject name is a prefix of some token
  of the entry, and every result carries the score 1.
\<close>

theorem searchName_full_coverage:
  "searchName upper p es =
     map (\<lambda>e. \<lparr>id_match = id_entry e, matchedName = name e, score = 1\<rparr>)
       (filter (\<lambda>e. \<forall>pw \<in> set (js_split (normalizeText upper p)). \<exists>ew \<in> set (words e). prefix pw ew) es)
   \<and> list_all (\<lambda>m. score m = 1) (searchName upper p es)"
proof -
  have "(\<lambda>e. \<forall>pw \<in> set (js_split (normalizeText upper p)). \<exists>ew \<in> set (words e). prefix pw ew)
      = covers (js_split (normalizeText upper p))"
    by (rule ext) (simp only: covers_iff)
  then show ?thesis
    by (simp add: searchName_eq list_all_iff)
qed

text \<open>The example of the specification: against \<open>JOHN SMITH\<close>, \<open>JANE SMITH\<close> and
  \<open>JOHN SMITHSON\<close>, the subject \<open>John Smit\<close> matches the first and the third.\<close>

theorem searchName_full_coverage_witness:
  "searchName example_table (JString (lit ''John Smit''))
     [\<lparr>id_entry = lit ''entry_1'', name = lit ''JOHN SMITH'', words = [lit ''JOHN'', lit ''SMITH'']\<rparr>,
      \<lparr>id_entry = lit ''entry_2'', name = lit ''JANE SMITH'', words = [lit ''JANE'', lit ''SMITH'']\<rparr>,
      \<lparr>id_entry = lit ''entry_3'', name = lit ''JOHN SMITHSON'', words = [lit ''JOHN'', lit ''SMITHSON'']\<rparr>]
   = [\<lparr>id_match = lit ''entry_1'', matchedName = lit ''JOHN SMITH'', score = 1\<rparr>,
      \<lparr>id_match = lit ''entry_3'', matchedName = lit ''JOHN SMITHSON'', score = 1\<rparr>]"
proof -
  have n: "js_split (normalizeText example_table (JString (lit ''John Smit''))) = [lit ''JOHN'', lit ''SMIT'']"
    by code_simp
  show ?thesis
    using searchName_full_coverage [of example_table "JString (lit ''John Smit'')"
      "[\<lparr>id_entry = lit ''entry_1'', name = lit ''JOHN SMITH'', words = [lit ''JOHN'', lit ''SMITH'']\<rparr>,
      \<lparr>id_entry = lit ''entry_2'', name = lit ''JANE SMITH'', words = [lit ''JANE'', lit ''SMITH'']\<rparr>,
      \<lparr>id_entry = lit ''entry_3'', name = lit ''JOHN SMITHSON'', words = [lit ''JOHN'', lit ''SMITHSON'']\<rparr>]"]
      n
    by (simp add: lit_def del: normalizeText.simps)
qed

text \<open>
  C1. A subject whose name normalises to the empty string should get no match. In the code
  the token list of the empty string is not empty: \<open>"".split(" ")\<close> is the one-element list
  holding the empty string, which is a prefix of every token, so the score is \<open>1/1\<close> and every
  entry of the corpus is returned.
\<close>

theorem searchName_empty_name_matches_all:
  "searchName upper (JString [])
     [\<lparr>id_entry = lit ''entry_1'', name = lit ''JOHN SMITH'', words = [lit ''JOHN'', lit ''SMITH'']\<rparr>]
   = [\<lparr>id_match = lit ''entry_1'', matchedName = lit ''JOHN SMITH'', score = 1\<rparr>]"
  by code_simp

section \<open>The loop over the subjects\<close>

lemma loopBody_snd:
  "snd (loopBody env cb ents rf sf n i pub) =
     (if json_write_ok env i then Inr (reportRow (uppercase env) ents i pub) else Inl JsonWriteError)"
  by (simp add: loopBody_def Let_def SAVE_JSON_RESPONSES_def reportRow_def)

lemma written_reports_append:
  "written_reports (xs @ ys) = written_reports xs @ written_reports ys"
  by (induction xs rule: written_reports.induct) simp_all

lemma written_reports_PageStep: "written_reports (map PageStep ss) = []"
  by (induction ss) simp_all

lemma written_reports_takeScreenshot:
  "written_reports (fst (takeScreenshot env i nm path)) = []"
  by (simp add: takeScreenshot_def written_reports_append written_reports_PageStep
      split: option.splits)

lemma written_reports_loopBody:
  "written_reports (fst (loopBody env cb ents rf sf n i pub)) = []"
  by (simp add: loopBody_def Let_def written_reports_append written_reports_takeScreenshot)

lemma listener_PageStep: "concat (map (progressListener att) (map PageStep ss)) = []"
  by (induction ss) simp_all

lemma listener_takeScreenshot:
  "concat (map (progressListener att) (fst (takeScreenshot env i nm path))) = []"
  by (simp add: takeScreenshot_def listener_PageStep split: option.splits)

lemma listener_loopBody:
  "json_write_ok env i \<Longrightarrow>
   concat (map (progressListener True) (fst (loopBody env True ents rf sf n i pub)))
     = subjectEvents n i pub"
  by (simp add: loopBody_def Let_def listener_takeScreenshot subjectEvents_def SAVE_JSON_RESPONSES_def
      lit_def)

lemma subjectLoop_Cons_snd:
  "snd (subjectLoop env cb ents rf sf n i (pub # pubs)) =
     (case snd (loopBody env cb ents rf sf n i pub) of
        Inl e \<Rightarrow> Inl e
      | Inr r \<Rightarrow> (case snd (subjectLoop env cb ents rf sf n (Suc i) pubs) of
                   Inl e \<Rightarrow> Inl e
                 | Inr rs \<Rightarrow> Inr (r # rs)))"
  by (simp split: prod.splits sum.splits)

lemma subjectLoop_Cons_fst:
  "fst (subjectLoop env cb ents rf sf n i (pub # pubs)) =
     (case snd (loopBody env cb ents rf sf n i pub) of
        Inl e \<Rightarrow> fst (loopBody env cb ents rf sf n i pub)
      | Inr r \<Rightarrow> fst (loopBody env cb ents rf sf n i pub)
                 @ fst (subjectLoop env cb ents rf sf n (Suc i) pubs))"
  by (simp split: prod.splits sum.splits)

lemma upt_shift: "[i..<i + length (x # xs)] = i # [Suc i..<Suc i + length xs]"
  by (subst upt_rec) simp

lemma subjectLoop_snd:
  "snd (subjectLoop env cb ents rf sf n i pubs) =
     (if list_all (json_write_ok env) [i..<i + length pubs]
      then Inr (map (\<lambda>(j, pub). reportRow (uppercase env) ents j pub) (enumerate i pubs))
      else Inl JsonWriteError)"
proof (induction pubs arbitrary: i)
  case Nil
  show ?case by simp
next
  case (Cons pub pubs)
  show ?case
    by (simp only: subjectLoop_Cons_snd loopBody_snd Cons.IH enumerate_simps list.pred_inject upt_shift)
       (simp split: if_splits)
qed

lemma written_reports_subjectLoop:
  "written_reports (fst (subjectLoop env cb ents rf sf n i pubs)) = []"
proof (induction pubs arbitrary: i)
  case Nil
  show ?case by simp
next
  case (Cons pub pubs)
  show ?case
    by (simp only: subjectLoop_Cons_fst)
       (simp add: written_reports_append written_reports_loopBody Cons.IH split: sum.splits)
qed

lemma listener_subjectLoop:
  "list_all (json_write_ok env) [i..<i + length pubs] \<Longrightarrow>
   concat (map (progressListener True) (fst (subjectLoop env True ents rf sf n i pubs)))
     = concat (map (\<lambda>(j, pub). subjectEvents n j pub) (enumerate i pubs))"
proof (induction pubs arbitrary: i)
  case Nil
  show ?case by simp
next
  case (Cons pub pubs)
  from Cons.prems have ok: "json_write_ok env i"
    and rest: "list_all (json_write_ok env) [Suc i..<Suc i + length pubs]"
    by (simp_all only: upt_shift list.pred_inject)
  show ?case
    by (simp only: subjectLoop_Cons_fst loopBody_snd)
       (simp add: ok listener_loopBody Cons.IH [OF rest])
qed

lemma page_failure_irrelevant_loopBody:
  "snd (loopBody (env\<lparr>page_failure := pf\<rparr>) cb ents rf sf n i pub)
     = snd (loopBody env cb ents rf sf n i pub)"
  by (simp add: loopBody_snd)

lemma subjectLoop_Inr:
  assumes "subjectLoop env cb ents rf sf n i pubs = (fx, Inr rows)"
  shows "list_all (json_write_ok env) [i..<i + length pubs]
     \<and> rows = map (\<lambda>(j, pub). reportRow (uppercase env) ents j pub) (enumerate i pubs)
     \<and> fx = fst (subjectLoop env cb ents rf sf n i pubs)"
proof -
  from assms have "snd (subjectLoop env cb ents rf sf n i pubs) = Inr rows" by simp
  then have "list_all (json_write_ok env) [i..<i + length pubs]
     \<and> rows = map (\<lambda>(j, pub). reportRow (uppercase env) ents j pub) (enumerate i pubs)"
    by (simp only: subjectLoop_snd split: if_splits) auto
  with assms show ?thesis by simp
qed

lemma case_prod_sum_Inr:
  "snd p = Inr r \<Longrightarrow> (case p of (a, Inl e) \<Rightarrow> f a e | (a, Inr x) \<Rightarrow> g a x) = g (fst p) r"
  by (cases p) simp

lemma runChecker_Inr:
  assumes "runChecker env p d cb = (fx, Inr folder)"
  shows "\<exists>ents sheet.
      loadCSVFolder (uppercase env) (csv_folder env) = Inr ents \<and> read_workbook env p = Some sheet
      \<and> launch_ok env \<and> report_write_ok env
      \<and> list_all (json_write_ok env) [0..<length sheet]
      \<and> folder = d @ lit ''/OFAC Results '' @ timestamp env
      \<and> fx = LaunchBrowser #
             fst (subjectLoop env cb ents (folder @ lit ''/responses'') (folder @ lit ''/screenshots'')
                    (length sheet) 0 (map publisherOf sheet))
             @ [CloseBrowser,
                WriteReport (folder @ lit ''/OFAC_Results.xlsx'')
                  (map (\<lambda>(j, pub). reportRow (uppercase env) ents j pub) (enumerate 0 (map publisherOf sheet)))]"
  using assms unfolding runChecker_def Let_def
  by (auto split: sum.splits option.splits if_splits prod.splits dest!: subjectLoop_Inr)

lemma runChecker_completes:
  assumes "loadCSVFolder (uppercase env) (csv_folder env) = Inr ents" and "read_workbook env p = Some sheet"
    and "launch_ok env" and "report_write_ok env"
    and "list_all (json_write_ok env) [0..<length sheet]"
  shows "runChecker env p d cb =
      (LaunchBrowser #
         fst (subjectLoop env cb ents (d @ lit ''/OFAC Results '' @ timestamp env @ lit ''/responses'')
                (d @ lit ''/OFAC Results '' @ timestamp env @ lit ''/screenshots'')
                (length sheet) 0 (map publisherOf sheet))
         @ [CloseBrowser,
            WriteReport (d @ lit ''/OFAC Results '' @ timestamp env @ lit ''/OFAC_Results.xlsx'')
              (map (\<lambda>(j, pub). reportRow (uppercase env) ents j pub) (enumerate 0 (map publisherOf sheet)))],
       Inr (d @ lit ''/OFAC Results '' @ timestamp env))"
proof -
  have s: "snd (subjectLoop env cb ents rf sf (length sheet) 0 (map publisherOf sheet))
      = Inr (map (\<lambda>(j, pub). reportRow (uppercase env) ents j pub) (enumerate 0 (map publisherOf sheet)))" for rf sf
    using assms(5) by (simp add: subjectLoop_snd)
  show ?thesis
    unfolding runChecker_def Let_def
    using assms(1-4) by (simp add: case_prod_sum_Inr [OF s])
qed

section \<open>One row per subject\<close>

lemma example_uppercase: "uppercase example_env = example_table"
  by (simp add: example_env_def)

lemma example_load: "loadCSVFolder (uppercase example_env) (csv_folder example_env) = Inr example_entries"
  unfolding example_env_def example_entries_def by code_simp

lemma example_publishers:
  "map publisherOf example_sheet = [\<lparr>Name = lit ''John Smit''\<rparr>, \<lparr>Name = []\<rparr>, \<lparr>Name = lit ''Jane Doe''\<rparr>]"
  by (simp add: example_sheet_def publisherOf_def or_else_def lit_def)

lemma example_search_0:
  "searchName example_table (JString (lit ''John Smit'')) example_entries
     = [\<lparr>id_match = lit ''entry_1'', matchedName = lit ''JOHN SMITH'', score = 1\<rparr>,
        \<lparr>id_match = lit ''entry_2'', matchedName = lit ''JOHN SMITHSON'', score = 1\<rparr>]"
  unfolding example_entries_def by code_simp

lemma example_search_1:
  "searchName example_table (JString []) example_entries
     = [\<lparr>id_match = lit ''entry_1'', matchedName = lit ''JOHN SMITH'', score = 1\<rparr>,
        \<lparr>id_match = lit ''entry_2'', matchedName = lit ''JOHN SMITHSON'', score = 1\<rparr>]"
  unfolding example_entries_def by code_simp

lemma example_search_2: "searchName example_table (JString (lit ''Jane Doe'')) example_entries = []"
  unfolding example_entries_def by code_simp

lemma example_run:
  "runChecker example_env p d cb =
     (LaunchBrowser #
        fst (subjectLoop example_env cb example_entries
               (d @ lit ''/OFAC Results '' @ timestamp example_env @ lit ''/responses'')
               (d @ lit ''/OFAC Results '' @ timestamp example_env @ lit ''/screenshots'')
               (length example_sheet) 0 (map publisherOf example_sheet))
        @ [CloseBrowser,
           WriteReport (d @ lit ''/OFAC Results '' @ timestamp example_env @ lit ''/OFAC_Results.xlsx'')
             (map (\<lambda>(j, pub). reportRow example_table example_entries j pub)
                (enumerate 0 (map publisherOf example_sheet)))],
      Inr (d @ lit ''/OFAC Results '' @ timestamp example_env))"
proof -
  have wb: "read_workbook example_env p = Some example_sheet"
    by (simp add: example_env_def)
  have "launch_ok example_env" "report_write_ok example_env"
    "list_all (json_write_ok example_env) [0..<length example_sheet]"
    by (simp_all add: example_env_def list_all_iff)
  from runChecker_completes [OF example_load wb this, unfolded example_uppercase]
  show ?thesis .
qed

lemma map_Publisher_reportRow:
  "map Publisher (map (\<lambda>(j, pub). reportRow upper ents j pub) (enumerate i pubs)) = map Name pubs"
  by (induction pubs arbitrary: i) (simp_all add: reportRow_def)

lemma written_reports_run:
  "written_reports (LaunchBrowser # fst (subjectLoop env cb ents rf sf n i pubs)
      @ [CloseBrowser, WriteReport path rows]) = [rows]"
  by (simp add: written_reports_append written_reports_subjectLoop)

text \<open>
  C3. When a run of \<open>runChecker\<close> completes, exactly one report is written, and it has exactly
  one row per subject of the sheet, in the order of the sheet. This does not depend on the
  captures: whichever of them throw (some, all or none), the run completes with the same
  rows.
\<close>

theorem runChecker_one_row_per_subject:
  assumes "runChecker env p d cb = (fx, Inr folder)"
  shows "\<exists>sheet rows. read_workbook env p = Some sheet \<and> written_reports fx = [rows]
      \<and> length rows = length sheet
      \<and> map Publisher rows = map (\<lambda>r. Name (publisherOf r)) sheet
      \<and> (\<forall>pf. \<exists>fx'. runChecker (env\<lparr>page_failure := pf\<rparr>) p d cb = (fx', Inr folder)
                   \<and> written_reports fx' = [rows])"
proof -
  from runChecker_Inr [OF assms] obtain ents sheet where
    load: "loadCSVFolder (uppercase env) (csv_folder env) = Inr ents" and wb: "read_workbook env p = Some sheet"
    and ok: "launch_ok env" "report_write_ok env" "list_all (json_write_ok env) [0..<length sheet]"
    and folder: "folder = d @ lit ''/OFAC Results '' @ timestamp env"
    and fx: "fx = LaunchBrowser #
             fst (subjectLoop env cb ents (folder @ lit ''/responses'') (folder @ lit ''/screenshots'')
                    (length sheet) 0 (map publisherOf sheet))
             @ [CloseBrowser,
                WriteReport (folder @ lit ''/OFAC_Results.xlsx'')
                  (map (\<lambda>(j, pub). reportRow (uppercase env) ents j pub) (enumerate 0 (map publisherOf sheet)))]"
    by blast
  define rows where "rows = map (\<lambda>(j, pub). reportRow (uppercase env) ents j pub) (enumerate 0 (map publisherOf sheet))"
  have 1: "written_reports fx = [rows]"
    unfolding fx rows_def by (rule written_reports_run)
  have 2: "map Publisher rows = map (\<lambda>r. Name (publisherOf r)) sheet"
    unfolding rows_def map_Publisher_reportRow by simp
  have 3: "length rows = length sheet"
    unfolding rows_def by simp
  have 4: "\<exists>fx'. runChecker (env\<lparr>page_failure := pf\<rparr>) p d cb = (fx', Inr folder)
                   \<and> written_reports fx' = [rows]" for pf
  proof -
    have "loadCSVFolder (uppercase (env\<lparr>page_failure := pf\<rparr>))
          (csv_folder (env\<lparr>page_failure := pf\<rparr>)) = Inr ents"
      "read_workbook (env\<lparr>page_failure := pf\<rparr>) p = Some sheet"
      "launch_ok (env\<lparr>page_failure := pf\<rparr>)" "report_write_ok (env\<lparr>page_failure := pf\<rparr>)"
      "list_all (json_write_ok (env\<lparr>page_failure := pf\<rparr>)) [0..<length sheet]"
      using load wb ok by simp_all
    from runChecker_completes [OF this, of d cb]
    show ?thesis
      unfolding rows_def folder by (simp add: written_reports_append written_reports_subjectLoop)
  qed
  from wb 1 2 3 4 show ?thesis by blast
qed

text \<open>The example run, where the capture of the first subject throws, and the same run with
  every capture throwing at its first step.\<close>

theorem runChecker_one_row_per_subject_witness:
  "\<exists>fx rows. runChecker example_env (lit ''subjects.xlsx'') (lit ''/tmp'') True
        = (fx, Inr (lit ''/tmp/OFAC Results 2024-01-01T00-00-00-000Z''))
     \<and> written_reports fx = [rows]
     \<and> map Publisher rows = [lit ''John Smit'', [], lit ''Jane Doe'']
     \<and> (\<exists>fx'. runChecker (example_env\<lparr>page_failure := (\<lambda>i. Some Goto)\<rparr>) (lit ''subjects.xlsx'') (lit ''/tmp'') True
              = (fx', Inr (lit ''/tmp/OFAC Results 2024-01-01T00-00-00-000Z''))
            \<and> written_reports fx' = [rows])"
proof -
  obtain fx where run: "runChecker example_env (lit ''subjects.xlsx'') (lit ''/tmp'') True
      = (fx, Inr (lit ''/tmp/OFAC Results 2024-01-01T00-00-00-000Z''))"
    by (simp add: example_run) (simp add: example_env_def lit_def)
  from runChecker_one_row_per_subject [OF run] obtain sheet rows where
    "read_workbook example_env (lit ''subjects.xlsx'') = Some sheet" "written_reports fx = [rows]"
    "map Publisher rows = map (\<lambda>r. Name (publisherOf r)) sheet"
    "\<forall>pf. \<exists>fx'. runChecker (example_env\<lparr>page_failure := pf\<rparr>) (lit ''subjects.xlsx'') (lit ''/tmp'') True
        = (fx', Inr (lit ''/tmp/OFAC Results 2024-01-01T00-00-00-000Z'')) \<and> written_reports fx' = [rows]"
    by blast
  moreover from this(1) have "map (\<lambda>r. Name (publisherOf r)) sheet = [lit ''John Smit'', [], lit ''Jane Doe'']"
    by (auto simp: example_env_def example_sheet_def publisherOf_def or_else_def lit_def)
  ultimately show ?thesis using run by metis
qed

section \<open>Match status and screenshot links\<close>

lemma reportRow_status:
  "((MatchStatus (reportRow upper ents i pub) = lit ''MATCH'') = (0 < MatchCount (reportRow upper ents i pub)))
   \<and> ((MatchStatus (reportRow upper ents i pub) = lit ''CLEAR'') = (MatchCount (reportRow upper ents i pub) = 0))"
  by (simp add: reportRow_def lit_def)

lemma list_all_reportRow:
  assumes "\<And>j pub. P (reportRow upper ents j pub)"
  shows "list_all P (map (\<lambda>(j, pub). reportRow upper ents j pub) (enumerate i pubs))"
  using assms by (induction pubs arbitrary: i) simp_all

text \<open>
  C4. In every row of the report of a completed run, \<open>MatchStatus\<close> is \<open>MATCH\<close> exactly when
  \<open>MatchCount\<close> is positive, and it is \<open>CLEAR\<close> exactly when \<open>MatchCount\<close> is 0.
\<close>

theorem matchStatus_iff_matchCount:
  assumes "runChecker env p d cb = (fx, Inr folder)"
  shows "\<exists>rows. written_reports fx = [rows]
     \<and> list_all (\<lambda>r. ((MatchStatus r = lit ''MATCH'') = (0 < MatchCount r))
                     \<and> ((MatchStatus r = lit ''CLEAR'') = (MatchCount r = 0))) rows"
proof -
  from runChecker_Inr [OF assms] obtain ents sheet where
    fx: "fx = LaunchBrowser #
             fst (subjectLoop env cb ents (folder @ lit ''/responses'') (folder @ lit ''/screenshots'')
                    (length sheet) 0 (map publisherOf sheet))
             @ [CloseBrowser,
                WriteReport (folder @ lit ''/OFAC_Results.xlsx'')
                  (map (\<lambda>(j, pub). reportRow (uppercase env) ents j pub) (enumerate 0 (map publisherOf sheet)))]"
    by blast
  have "written_reports fx
      = [map (\<lambda>(j, pub). reportRow (uppercase env) ents j pub) (enumerate 0 (map publisherOf sheet))]"
    unfolding fx by (rule written_reports_run)
  moreover have "list_all (\<lambda>r. ((MatchStatus r = lit ''MATCH'') = (0 < MatchCount r))
                     \<and> ((MatchStatus r = lit ''CLEAR'') = (MatchCount r = 0)))
      (map (\<lambda>(j, pub). reportRow (uppercase env) ents j pub) (enumerate 0 (map publisherOf sheet)))"
    by (rule list_all_reportRow) (rule reportRow_status)
  ultimately show ?thesis by blast
qed

lemma example_counts:
  "map MatchCount (map (\<lambda>(j, pub). reportRow example_table example_entries j pub)
      (enumerate 0 (map publisherOf example_sheet))) = [2, 2, 0]"
  by (simp add: example_publishers reportRow_def example_search_0 example_search_1 example_search_2)

lemma example_statuses:
  "map MatchStatus (map (\<lambda>(j, pub). reportRow example_table example_entries j pub)
      (enumerate 0 (map publisherOf example_sheet))) = [lit ''MATCH'', lit ''MATCH'', lit ''CLEAR'']"
  by (simp add: example_publishers reportRow_def example_search_0 example_search_1 example_search_2)

text \<open>The example run: two rows with matches and one without.\<close>

theorem matchStatus_iff_matchCount_witness:
  "\<exists>fx rows. runChecker example_env (lit ''subjects.xlsx'') (lit ''/tmp'') True
        = (fx, Inr (lit ''/tmp/OFAC Results 2024-01-01T00-00-00-000Z''))
     \<and> written_reports fx = [rows]
     \<and> map MatchStatus rows = [lit ''MATCH'', lit ''MATCH'', lit ''CLEAR'']
     \<and> map MatchCount rows = [2, 2, 0]
     \<and> list_all (\<lambda>r. ((MatchStatus r = lit ''MATCH'') = (0 < MatchCount r))
                     \<and> ((MatchStatus r = lit ''CLEAR'') = (MatchCount r = 0))) rows"
proof -
  define fx where "fx = fst (runChecker example_env (lit ''subjects.xlsx'') (lit ''/tmp'') True)"
  have run: "runChecker example_env (lit ''subjects.xlsx'') (lit ''/tmp'') True
      = (fx, Inr (lit ''/tmp/OFAC Results 2024-01-01T00-00-00-000Z''))"
    unfolding fx_def by (simp add: example_run) (simp add: example_env_def lit_def)
  have rep: "written_reports fx = [map (\<lambda>(j, pub). reportRow example_table example_entries j pub)
      (enumerate 0 (map publisherOf example_sheet))]"
    unfolding fx_def example_run fst_conv by (rule written_reports_run)
  from matchStatus_iff_matchCount [OF run] rep
  have all: "list_all (\<lambda>r. ((MatchStatus r = lit ''MATCH'') = (0 < MatchCount r))
                     \<and> ((MatchStatus r = lit ''CLEAR'') = (MatchCount r = 0)))
      (map (\<lambda>(j, pub). reportRow example_table example_entries j pub)
      (enumerate 0 (map publisherOf example_sheet)))"
    by simp
  show ?thesis
    by (rule exI [of _ fx], rule exI [of _ "map (\<lambda>(j, pub). reportRow example_table example_entries j pub)
      (enumerate 0 (map publisherOf example_sheet))"])
       (intro conjI run rep example_statuses example_counts all)
qed

lemma saved_screenshots_append:
  "saved_screenshots (xs @ ys) = saved_screenshots xs @ saved_screenshots ys"
  by (induction xs rule: saved_screenshots.induct) simp_all

lemma saved_screenshots_PageStep: "saved_screenshots (map PageStep ss) = []"
  by (induction ss) simp_all

lemma saved_screenshots_takeScreenshot:
  "saved_screenshots (fst (takeScreenshot env i nm path))
     = (if nm \<noteq> [] \<and> page_failure env i = None then [path] else [])"
  by (simp add: takeScreenshot_def saved_screenshots_append saved_screenshots_PageStep
      split: option.splits)

lemma saved_screenshots_loopBody:
  "json_write_ok env i \<Longrightarrow>
   saved_screenshots (fst (loopBody env cb ents rf sf n i pub))
     = (if Name pub \<noteq> [] \<and> page_failure env i = None
        then [sf @ lit ''/'' @ safeName (Name pub) @ lit ''_'' @ show_nat (i + 1) @ lit ''.png''] else [])"
  by (simp add: loopBody_def Let_def saved_screenshots_append saved_screenshots_takeScreenshot)

lemma saved_screenshots_subjectLoop:
  "list_all (json_write_ok env) [i..<i + length pubs] \<Longrightarrow>
   saved_screenshots (fst (subjectLoop env cb ents rf sf n i pubs))
     = concat (map (\<lambda>(j, pub). if Name pub \<noteq> [] \<and> page_failure env j = None
                     then [sf @ lit ''/'' @ safeName (Name pub) @ lit ''_'' @ show_nat (j + 1) @ lit ''.png'']
                     else [])
                 (enumerate i pubs))"
proof (induction pubs arbitrary: i)
  case Nil
  show ?case by simp
next
  case (Cons pub pubs)
  from Cons.prems have ok: "json_write_ok env i"
    and rest: "list_all (json_write_ok env) [Suc i..<Suc i + length pubs]"
    by (simp_all only: upt_shift list.pred_inject)
  show ?case
    by (simp only: subjectLoop_Cons_fst loopBody_snd)
       (simp add: ok saved_screenshots_append saved_screenshots_loopBody Cons.IH [OF rest])
qed

lemma show_nat_small:
  "show_nat (Suc 0) = lit ''1''" "show_nat (Suc (Suc 0)) = lit ''2''" "show_nat (Suc (Suc (Suc 0))) = lit ''3''"
  by code_simp+

lemma example_safeNames:
  "safeName (lit ''John Smit'') = lit ''John_Smit''" "safeName [] = lit ''EMPTY''" "safeName (lit ''Jane Doe'') = lit ''Jane_Doe''"
  by code_simp+

lemma example_links:
  "map Screenshot (map (\<lambda>(j, pub). reportRow example_table example_entries j pub)
      (enumerate 0 (map publisherOf example_sheet)))
   = [\<lparr>text' = lit ''View Screenshot'', hyperlink = lit ''./screenshots/John_Smit_1.png''\<rparr>,
      \<lparr>text' = lit ''View Screenshot'', hyperlink = lit ''./screenshots/EMPTY_2.png''\<rparr>,
      \<lparr>text' = lit ''View Screenshot'', hyperlink = lit ''./screenshots/Jane_Doe_3.png''\<rparr>]"
  using example_safeNames show_nat_small
  by (simp add: example_publishers reportRow_def lit_def)

lemma example_saved:
  "saved_screenshots (fst (runChecker example_env (lit ''subjects.xlsx'') (lit ''/tmp'') True))
   = [lit ''/tmp/OFAC Results 2024-01-01T00-00-00-000Z/screenshots/Jane_Doe_3.png'']"
proof -
  have ok: "list_all (json_write_ok example_env) [0..<0 + length (map publisherOf example_sheet)]"
    by (simp add: example_env_def list_all_iff)
  have pf: "page_failure example_env 0 = Some TypeName" "page_failure example_env (Suc 0) = None"
    "page_failure example_env (Suc (Suc 0)) = None" "timestamp example_env = lit ''2024-01-01T00-00-00-000Z''"
    by (simp_all add: example_env_def)
  show ?thesis
    using example_safeNames show_nat_small
    unfolding example_run fst_conv
    by (simp only: saved_screenshots_append saved_screenshots.simps
          saved_screenshots_subjectLoop [OF ok])
       (simp add: example_publishers pf lit_def)
qed

text \<open>
  C5. The Screenshot cell of a row should be a hyperlink when the screenshot of the subject
  exists and empty when the capture failed or was skipped. The code builds the hyperlink
  without looking at the outcome of the capture. In the example run only the third
  subject gets a screenshot file (the capture of the first throws, the second has an empty
  name and is skipped), and all three rows carry a hyperlink.
\<close>

theorem screenshot_link_without_artifact:
  "snd (runChecker example_env (lit ''subjects.xlsx'') (lit ''/tmp'') True)
     = Inr (lit ''/tmp/OFAC Results 2024-01-01T00-00-00-000Z'')
   \<and> map Publisher (concat (written_reports (fst (runChecker example_env (lit ''subjects.xlsx'') (lit ''/tmp'') True))))
     = [lit ''John Smit'', [], lit ''Jane Doe'']
   \<and> map Screenshot (concat (written_reports (fst (runChecker example_env (lit ''subjects.xlsx'') (lit ''/tmp'') True))))
     = [\<lparr>text' = lit ''View Screenshot'', hyperlink = lit ''./screenshots/John_Smit_1.png''\<rparr>,
        \<lparr>text' = lit ''View Screenshot'', hyperlink = lit ''./screenshots/EMPTY_2.png''\<rparr>,
        \<lparr>text' = lit ''View Screenshot'', hyperlink = lit ''./screenshots/Jane_Doe_3.png''\<rparr>]
   \<and> saved_screenshots (fst (runChecker example_env (lit ''subjects.xlsx'') (lit ''/tmp'') True))
     = [lit ''/tmp/OFAC Results 2024-01-01T00-00-00-000Z/screenshots/Jane_Doe_3.png'']"
proof -
  have run: "snd (runChecker example_env (lit ''subjects.xlsx'') (lit ''/tmp'') True)
      = Inr (lit ''/tmp/OFAC Results 2024-01-01T00-00-00-000Z'')"
    by (simp add: example_run) (simp add: example_env_def lit_def)
  have rep: "concat (written_reports (fst (runChecker example_env (lit ''subjects.xlsx'') (lit ''/tmp'') True)))
      = map (\<lambda>(j, pub). reportRow example_table example_entries j pub) (enumerate 0 (map publisherOf example_sheet))"
    unfolding example_run fst_conv written_reports_run by simp
  have pubs: "map Publisher (map (\<lambda>(j, pub). reportRow example_table example_entries j pub)
      (enumerate 0 (map publisherOf example_sheet))) = [lit ''John Smit'', [], lit ''Jane Doe'']"
    unfolding map_Publisher_reportRow by (simp add: example_publishers)
  show ?thesis
    unfolding rep by (intro conjI run pubs example_links example_saved)
qed

section \<open>Progress events\<close>

lemma upload_Json:
  assumes "upload env att (Some f) = (chan, HttpJson zipName)"
  shows "\<exists>fx folder. runChecker env f (dirname env @ lit ''/temp'') True = (fx, Inr folder)
      \<and> archive_ok env \<and> zipName = basename folder @ lit ''.zip''
      \<and> chan = concat (map (progressListener att) fx) @ (if att then [SseDone zipName] else [])"
proof (cases "runChecker env f (dirname env @ lit ''/temp'') True")
  case (Pair fx r)
  show ?thesis
  proof (cases r)
    case (Inl e)
    from assms show ?thesis
      unfolding upload_def Let_def option.case Pair prod.case Inl sum.case
      by (simp split: if_splits)
  next
    case (Inr folder)
    from assms have "archive_ok env \<and> zipName = basename folder @ lit ''.zip''
      \<and> chan = concat (map (progressListener att) fx) @ (if att then [SseDone zipName] else [])"
      unfolding upload_def Let_def option.case Pair prod.case Inr sum.case
      by (auto split: if_splits)
    with Pair Inr show ?thesis by blast
  qed
qed

lemma upload_completes:
  assumes "runChecker env f (dirname env @ lit ''/temp'') True = (fx, Inr folder)" and "archive_ok env"
  shows "upload env att (Some f) =
     (concat (map (progressListener att) fx)
        @ (if att then [SseDone (basename folder @ lit ''.zip'')] else []),
      HttpJson (basename folder @ lit ''.zip''))"
  unfolding upload_def Let_def option.case assms(1) prod.case sum.case
  using assms(2) by simp

lemma listener_run:
  assumes "list_all (json_write_ok env) [0..<0 + length pubs]"
  shows "concat (map (progressListener True)
            (LaunchBrowser # fst (subjectLoop env True ents rf sf n 0 pubs)
               @ [CloseBrowser, WriteReport path rows]))
         = concat (map (\<lambda>(j, pub). subjectEvents n j pub) (enumerate 0 pubs))"
  by (simp add: listener_subjectLoop [OF assms])

lemma currents_subjectEvents:
  "map sse_current (concat (map (\<lambda>(j, pub). subjectEvents n j pub) (enumerate i pubs)))
     = concat (map (\<lambda>k. [k, k]) [Suc i..<Suc i + length pubs])"
proof (induction pubs arbitrary: i)
  case Nil
  show ?case by simp
next
  case (Cons pub pubs)
  have "[Suc i..<Suc i + length (pub # pubs)] = Suc i # [Suc (Suc i)..<Suc (Suc i) + length pubs]"
    by (rule upt_shift)
  then show ?case
    by (simp only: enumerate_simps list.map concat.simps map_append Cons.IH case_prod_conv)
       (simp add: subjectEvents_def)
qed

lemma sorted_doubled: "sorted (concat (map (\<lambda>k. [k, k]) [a..<b]))"
proof (induction b)
  case 0
  show ?case by simp
next
  case (Suc b)
  have "set (concat (map (\<lambda>k. [k, k]) [a..<b])) \<subseteq> {a..<b}" by auto
  with Suc show ?case by (auto simp: sorted_append)
qed

lemma no_done_subjectEvents:
  "filter is_done (concat (map (\<lambda>(j, pub). subjectEvents n j pub) (enumerate i pubs))) = []"
  by (induction pubs arbitrary: i) (simp_all add: subjectEvents_def)

lemma upload_channel:
  assumes "upload env True (Some f) = (chan, HttpJson zipName)"
  shows "\<exists>sheet. read_workbook env f = Some sheet
     \<and> chan = concat (map (\<lambda>(j, pub). subjectEvents (length sheet) j pub)
                       (enumerate 0 (map publisherOf sheet))) @ [SseDone zipName]"
proof -
  from upload_Json [OF assms] obtain fx folder where
    run: "runChecker env f (dirname env @ lit ''/temp'') True = (fx, Inr folder)"
    and chan: "chan = concat (map (progressListener True) fx) @ [SseDone zipName]"
    by auto
  from runChecker_Inr [OF run] obtain ents sheet where
    wb: "read_workbook env f = Some sheet"
    and ok: "list_all (json_write_ok env) [0..<length sheet]"
    and fx: "fx = LaunchBrowser #
             fst (subjectLoop env True ents (folder @ lit ''/responses'') (folder @ lit ''/screenshots'')
                    (length sheet) 0 (map publisherOf sheet))
             @ [CloseBrowser,
                WriteReport (folder @ lit ''/OFAC_Results.xlsx'')
                  (map (\<lambda>(j, pub). reportRow (uppercase env) ents j pub) (enumerate 0 (map publisherOf sheet)))]"
    by blast
  from ok have ok': "list_all (json_write_ok env) [0..<0 + length (map publisherOf sheet)]"
    by simp
  have "concat (map (progressListener True) fx)
      = concat (map (\<lambda>(j, pub). subjectEvents (length sheet) j pub)
                       (enumerate 0 (map publisherOf sheet)))"
    unfolding fx by (rule listener_run [OF ok'])
  with wb chan show ?thesis by simp
qed

text \<open>
  C6, as amended. When the upload request completes with a consumer attached, the event
  stream holds the progress events followed by exactly one terminal event, which carries
  the name of the zip file and is last. Each subject contributes two progress events in a
  row with the same \<open>current\<close> (one when its list search starts, one when its screenshot
  starts), so \<open>current\<close> runs through \<open>1, 1, 2, 2, \<dots>, total, total\<close>: it never decreases,
  and it is not strictly increasing.
\<close>

theorem progress_events_of_completed_upload:
  assumes "upload env True (Some f) = (chan, HttpJson zipName)"
  shows "\<exists>sheet events. read_workbook env f = Some sheet
     \<and> chan = events @ [SseDone zipName]
     \<and> events = concat (map (\<lambda>(j, pub).
           [SseProgress (j + 1) (length sheet) (lit ''Searching SDN/ALT lists''),
            SseProgress (j + 1) (length sheet)
              (lit ''Taking screenshot for '' @ [0x22] @ Name pub @ [0x22])])
         (enumerate 0 (map publisherOf sheet)))
     \<and> map sse_current events = concat (map (\<lambda>i. [i, i]) [1..<Suc (length sheet)])
     \<and> sorted (map sse_current events)
     \<and> filter is_done chan = [SseDone zipName]"
proof -
  from upload_channel [OF assms] obtain sheet where
    wb: "read_workbook env f = Some sheet"
    and chan: "chan = concat (map (\<lambda>(j, pub). subjectEvents (length sheet) j pub)
                       (enumerate 0 (map publisherOf sheet))) @ [SseDone zipName]"
    by blast
  define events where "events = concat (map (\<lambda>(j, pub). subjectEvents (length sheet) j pub)
                       (enumerate 0 (map publisherOf sheet)))"
  have 1: "chan = events @ [SseDone zipName]"
    unfolding events_def by (rule chan)
  have 2: "events = concat (map (\<lambda>(j, pub).
           [SseProgress (j + 1) (length sheet) (lit ''Searching SDN/ALT lists''),
            SseProgress (j + 1) (length sheet)
              (lit ''Taking screenshot for '' @ [0x22] @ Name pub @ [0x22])])
         (enumerate 0 (map publisherOf sheet)))"
    unfolding events_def subjectEvents_def ..
  have 3: "map sse_current events = concat (map (\<lambda>i. [i, i]) [1..<Suc (length sheet)])"
    unfolding events_def currents_subjectEvents by simp
  have 4: "sorted (map sse_current events)"
    unfolding 3 by (rule sorted_doubled)
  have 5: "filter is_done chan = [SseDone zipName]"
    unfolding 1 events_def by (simp add: no_done_subjectEvents)
  from wb 1 2 3 4 5 show ?thesis by blast
qed

lemma example_upload:
  "upload example_env True (Some (lit ''subjects.xlsx''))
     = (concat (map (\<lambda>(j, pub). subjectEvents 3 j pub)
                  (enumerate 0 [\<lparr>Name = lit ''John Smit''\<rparr>, \<lparr>Name = []\<rparr>, \<lparr>Name = lit ''Jane Doe''\<rparr>]))
          @ [SseDone (lit ''OFAC Results 2024-01-01T00-00-00-000Z.zip'')],
        HttpJson (lit ''OFAC Results 2024-01-01T00-00-00-000Z.zip''))"
proof -
  have ok: "list_all (json_write_ok example_env) [0..<0 + length (map publisherOf example_sheet)]"
    by (simp add: example_env_def list_all_iff)
  have a: "archive_ok example_env" by (simp add: example_env_def)
  have b: "basename ((dirname example_env @ lit ''/temp'') @ lit ''/OFAC Results '' @ timestamp example_env)
      = lit ''OFAC Results 2024-01-01T00-00-00-000Z''"
    by (simp add: example_env_def basename_def lit_def)
  have n: "length example_sheet = 3" by (simp add: example_sheet_def)
  show ?thesis
    by (simp only: upload_completes [OF example_run a] listener_run [OF ok] if_True b)
       (simp add: example_publishers n lit_def)
qed

text \<open>C6 as stated fails: in the example run of three subjects the values of \<open>current\<close> in
  the events before the terminal one are \<open>1, 1, 2, 2, 3, 3\<close>.\<close>

theorem progress_current_not_strictly_increasing:
  "map sse_current (butlast (fst (upload example_env True (Some (lit ''subjects.xlsx'')))))
     = [1, 1, 2, 2, 3, 3]
   \<and> last (fst (upload example_env True (Some (lit ''subjects.xlsx''))))
     = SseDone (lit ''OFAC Results 2024-01-01T00-00-00-000Z.zip'')
   \<and> \<not> sorted_wrt (<)
         (map sse_current (butlast (fst (upload example_env True (Some (lit ''subjects.xlsx''))))))"
  by (simp add: example_upload subjectEvents_def butlast_append)

text \<open>The example run through the upload route.\<close>

theorem progress_events_of_completed_upload_witness:
  "\<exists>events. fst (upload example_env True (Some (lit ''subjects.xlsx'')))
        = events @ [SseDone (lit ''OFAC Results 2024-01-01T00-00-00-000Z.zip'')]
     \<and> map sse_current events = [1, 1, 2, 2, 3, 3]
     \<and> sorted (map sse_current events)
     \<and> filter is_done (fst (upload example_env True (Some (lit ''subjects.xlsx''))))
         = [SseDone (lit ''OFAC Results 2024-01-01T00-00-00-000Z.zip'')]"
proof -
  define chan where "chan = fst (upload example_env True (Some (lit ''subjects.xlsx'')))"
  have up: "upload example_env True (Some (lit ''subjects.xlsx''))
      = (chan, HttpJson (lit ''OFAC Results 2024-01-01T00-00-00-000Z.zip''))"
    unfolding chan_def by (simp add: example_upload)
  have wb: "read_workbook example_env (lit ''subjects.xlsx'') = Some example_sheet"
    by (simp add: example_env_def)
  from progress_events_of_completed_upload [OF up] wb obtain events where
    "chan = events @ [SseDone (lit ''OFAC Results 2024-01-01T00-00-00-000Z.zip'')]"
    "map sse_current events = concat (map (\<lambda>i. [i, i]) [1..<Suc (length example_sheet)])"
    "sorted (map sse_current events)"
    "filter is_done chan = [SseDone (lit ''OFAC Results 2024-01-01T00-00-00-000Z.zip'')]"
    by auto
  moreover have "concat (map (\<lambda>i. [i, i]) [1..<Suc (length example_sheet)]) = [1, 1, 2, 2, 3, 3::nat]"
    by (simp add: example_sheet_def upt_rec)
  ultimately show ?thesis unfolding chan_def by auto
qed

section \<open>Loading the corpus\<close>

lemma readCsvFiles_eq:
  "readCsvFiles upper files acc =
     (case stream_failure files of
        Some e \<Rightarrow> Inl e
      | None \<Rightarrow> Inr (acc @ normalized_cells upper files))"
  by (induction upper files acc rule: readCsvFiles.induct)
     (simp_all add: normalized_cells_def del: normalizeText.simps split: option.splits)

lemma loadCSVFolder_eq:
  "loadCSVFolder upper folder =
     (if csv_files folder = [] then Inl NoCsvFiles
      else (case stream_failure (csv_files folder) of
              Some e \<Rightarrow> Inl e
            | None \<Rightarrow>
                if normalized_cells upper (csv_files folder) = [] then Inl NoEntries
                else Inr (map (\<lambda>(i, n). \<lparr>id_entry = lit ''entry_'' @ show_nat (i + 1), name = n,
                                          words = js_split n\<rparr>)
                            (enumerate 0 (normalized_cells upper (csv_files folder))))))"
  unfolding loadCSVFolder_def Let_def csv_files_def [symmetric]
  by (simp add: readCsvFiles_eq split: option.splits)

text \<open>
  C7. If the folder has no file whose name ends in \<open>.csv\<close>, or no cell of its CSV files
  normalises to a non-empty text, then \<open>loadCSVFolder\<close> throws, and \<open>runChecker\<close> ends with
  that error and an empty log: no progress call, no browser, no page step, no file and no
  report. (When no cell is left because the stream of a CSV file failed, the error is that
  failure: the rejection of the promise after an error of the parser, or the end of the
  process on the uncaught error of the read stream.)
\<close>

theorem loadCSVFolder_empty_corpus_aborts:
  assumes "csv_files (csv_folder env) = []
     \<or> normalized_cells (uppercase env) (csv_files (csv_folder env)) = []"
  shows "\<exists>e. e = (if csv_files (csv_folder env) = [] then NoCsvFiles
                 else (case stream_failure (csv_files (csv_folder env)) of
                         Some e' \<Rightarrow> e'
                       | None \<Rightarrow> NoEntries))
     \<and> loadCSVFolder (uppercase env) (csv_folder env) = Inl e
     \<and> runChecker env p d cb = ([], Inl e)"
proof -
  define e where "e = (if csv_files (csv_folder env) = [] then NoCsvFiles
                 else (case stream_failure (csv_files (csv_folder env)) of
                         Some e' \<Rightarrow> e'
                       | None \<Rightarrow> NoEntries))"
  from assms have load: "loadCSVFolder (uppercase env) (csv_folder env) = Inl e"
    unfolding e_def by (auto simp: loadCSVFolder_eq split: option.splits)
  then have "runChecker env p d cb = ([], Inl e)"
    by (simp add: runChecker_def)
  with load e_def show ?thesis by blast
qed

text \<open>A folder without CSV files, and a CSV file whose cells are punctuation and blanks.\<close>

theorem loadCSVFolder_empty_corpus_aborts_witness:
  "loadCSVFolder example_table [(lit ''notes.txt'', CsvRows [[lit ''JOHN SMITH'']])] = Inl NoCsvFiles
   \<and> runChecker (example_env\<lparr>csv_folder := [(lit ''notes.txt'', CsvRows [[lit ''JOHN SMITH'']])]\<rparr>)
        (lit ''subjects.xlsx'') (lit ''/tmp'') True = ([], Inl NoCsvFiles)
   \<and> loadCSVFolder example_table [(lit ''sdn.csv'', CsvRows [[lit ''-'', lit ''  ''], [lit ''.,'']])] = Inl NoEntries
   \<and> runChecker (example_env\<lparr>csv_folder := [(lit ''sdn.csv'', CsvRows [[lit ''-'', lit ''  ''], [lit ''.,'']])]\<rparr>)
        (lit ''subjects.xlsx'') (lit ''/tmp'') True = ([], Inl NoEntries)"
proof -
  have 1: "csv_files [(lit ''notes.txt'', CsvRows [[lit ''JOHN SMITH'']])] = []"
    by code_simp
  have 2: "csv_files [(lit ''sdn.csv'', CsvRows [[lit ''-'', lit ''  ''], [lit ''.,'']])]
      = [(lit ''sdn.csv'', CsvRows [[lit ''-'', lit ''  ''], [lit ''.,'']])]"
    by code_simp
  have 3: "normalized_cells example_table [(lit ''sdn.csv'', CsvRows [[lit ''-'', lit ''  ''], [lit ''.,'']])] = []"
    by code_simp
  have 4: "stream_failure [(lit ''sdn.csv'', CsvRows [[lit ''-'', lit ''  ''], [lit ''.,'']])] = None"
    by code_simp
  from loadCSVFolder_empty_corpus_aborts
    [of "example_env\<lparr>csv_folder := [(lit ''notes.txt'', CsvRows [[lit ''JOHN SMITH'']])]\<rparr>"
      "lit ''subjects.xlsx''" "lit ''/tmp''" True]
  have a: "loadCSVFolder example_table [(lit ''notes.txt'', CsvRows [[lit ''JOHN SMITH'']])] = Inl NoCsvFiles
   \<and> runChecker (example_env\<lparr>csv_folder := [(lit ''notes.txt'', CsvRows [[lit ''JOHN SMITH'']])]\<rparr>)
        (lit ''subjects.xlsx'') (lit ''/tmp'') True = ([], Inl NoCsvFiles)"
    by (simp add: 1 example_uppercase)
  from loadCSVFolder_empty_corpus_aborts
    [of "example_env\<lparr>csv_folder := [(lit ''sdn.csv'', CsvRows [[lit ''-'', lit ''  ''], [lit ''.,'']])]\<rparr>"
      "lit ''subjects.xlsx''" "lit ''/tmp''" True]
  have b: "loadCSVFolder example_table [(lit ''sdn.csv'', CsvRows [[lit ''-'', lit ''  ''], [lit ''.,'']])] = Inl NoEntries
   \<and> runChecker (example_env\<lparr>csv_folder := [(lit ''sdn.csv'', CsvRows [[lit ''-'', lit ''  ''], [lit ''.,'']])]\<rparr>)
        (lit ''subjects.xlsx'') (lit ''/tmp'') True = ([], Inl NoEntries)"
    by (simp add: 2 3 4 example_uppercase)
  from a b show ?thesis by simp
qed

lemma show_nat_nonempty: "show_nat n \<noteq> []"
  by (subst show_nat.simps) simp

lemma digit_char_inj: "a < 10 \<Longrightarrow> b < 10 \<Longrightarrow> digit_char a = digit_char b \<Longrightarrow> a = b"
  by (simp add: digit_char_def)

lemma show_nat_inj: "show_nat m = show_nat n \<Longrightarrow> m = n"
proof (induction m arbitrary: n rule: show_nat.induct)
  case (1 m)
  show ?case
  proof (cases "m < 10")
    case True
    show ?thesis
    proof (cases "n < 10")
      case n: True
      from "1.prems" True n have "digit_char m = digit_char n"
        by (simp add: show_nat.simps [of m] show_nat.simps [of n])
      with True n show ?thesis by (rule digit_char_inj)
    next
      case n: False
      from "1.prems" True n have "show_nat (n div 10) = []"
        by (simp add: show_nat.simps [of m] show_nat.simps [of n])
      then show ?thesis by (simp add: show_nat_nonempty)
    qed
  next
    case False
    show ?thesis
    proof (cases "n < 10")
      case n: True
      from "1.prems" False n have "show_nat (m div 10) = []"
        by (simp add: show_nat.simps [of m] show_nat.simps [of n])
      then show ?thesis by (simp add: show_nat_nonempty)
    next
      case n: False
      from "1.prems" False n have eq: "show_nat (m div 10) = show_nat (n div 10)"
        and d: "digit_char (m mod 10) = digit_char (n mod 10)"
        by (simp_all add: show_nat.simps [of m] show_nat.simps [of n])
      from "1.IH" [OF False eq] have "m div 10 = n div 10" .
      moreover from d have "m mod 10 = n mod 10" by (simp add: digit_char_def)
      ultimately show ?thesis by (metis div_mult_mod_eq)
    qed
  qed
qed

lemma ids_of_entries:
  "map id_entry (map (\<lambda>(i, n). \<lparr>id_entry = lit ''entry_'' @ show_nat (i + 1), name = n, words = js_split n\<rparr>)
                  (enumerate i xs))
     = map (\<lambda>k. (lit ''entry_'') @ show_nat (k + 1)) [i..<i + length xs]"
proof (induction xs arbitrary: i)
  case Nil
  show ?case by simp
next
  case (Cons x xs)
  show ?case
    by (simp only: upt_shift enumerate_simps list.map Cons.IH) simp
qed

lemma distinct_ids: "distinct (map (\<lambda>k. (lit ''entry_'') @ show_nat (k + 1)) [a..<b])"
  by (auto simp: distinct_map inj_on_def dest: show_nat_inj)

lemma names_of_entries:
  "map name (map (\<lambda>(i, n). \<lparr>id_entry = lit ''entry_'' @ show_nat (i + 1), name = n, words = js_split n\<rparr>)
                  (enumerate i xs)) = xs"
  by (induction xs arbitrary: i) simp_all

lemma words_of_entries:
  "e \<in> set (map (\<lambda>(i, n). \<lparr>id_entry = lit ''entry_'' @ show_nat (i + 1), name = n, words = js_split n\<rparr>)
                  (enumerate i xs)) \<Longrightarrow> words e = js_split (name e)"
  by (induction xs arbitrary: i) auto

lemma length_filter_count: "length (filter (\<lambda>x. f x = v) xs) = count_list (map f xs) v"
  by (induction xs) simp_all

lemma loadCSVFolder_Inr:
  assumes "loadCSVFolder upper folder = Inr ents"
  shows "ents = map (\<lambda>(i, n). \<lparr>id_entry = lit ''entry_'' @ show_nat (i + 1), name = n, words = js_split n\<rparr>)
                  (enumerate 0 (normalized_cells upper (csv_files folder)))"
  using assms by (simp add: loadCSVFolder_eq split: if_splits option.splits)

text \<open>
  C10. The loader does not deduplicate. The names of the entries are the non-empty
  normalised cells, one entry per cell in the order of loading, and the entries have
  pairwise different ids; so a name \<open>n\<close> that is the normal form of \<open>k\<close> cells is the name of \<open>k\<close>
  entries, and a subject all of whose tokens are prefixes of tokens of \<open>n\<close> gets \<open>k\<close> results
  with that name.
\<close>

theorem loadCSVFolder_keeps_duplicates:
  assumes "loadCSVFolder upper folder = Inr ents"
  shows "map name ents = normalized_cells upper (csv_files folder)
     \<and> distinct (map id_entry ents)
     \<and> length (filter (\<lambda>e. name e = n) ents) = count_list (normalized_cells upper (csv_files folder)) n
     \<and> ((\<forall>pw \<in> set (js_split (normalizeText upper p)). \<exists>ew \<in> set (js_split n). prefix pw ew)
          \<longrightarrow> length (filter (\<lambda>m. matchedName m = n) (searchName upper p ents))
                = count_list (normalized_cells upper (csv_files folder)) n)"
proof -
  note ents = loadCSVFolder_Inr [OF assms]
  have 1: "map name ents = normalized_cells upper (csv_files folder)"
    unfolding ents by (rule names_of_entries)
  have 2: "distinct (map id_entry ents)"
    unfolding ents ids_of_entries by (rule distinct_ids)
  have 3: "length (filter (\<lambda>e. name e = n) ents) = count_list (normalized_cells upper (csv_files folder)) n"
    by (simp only: length_filter_count 1)
  have 4: "length (filter (\<lambda>m. matchedName m = n) (searchName upper p ents))
      = count_list (normalized_cells upper (csv_files folder)) n"
    if cov: "\<forall>pw \<in> set (js_split (normalizeText upper p)). \<exists>ew \<in> set (js_split n). prefix pw ew"
  proof -
    have w: "words e = js_split (name e)" if "e \<in> set ents" for e
      using that unfolding ents by (rule words_of_entries)
    have "filter (\<lambda>m. matchedName m = n) (searchName upper p ents)
        = map (\<lambda>e. \<lparr>id_match = id_entry e, matchedName = name e, score = 1\<rparr>)
            (filter (\<lambda>e. covers (js_split (normalizeText upper p)) e \<and> name e = n) ents)"
      by (simp add: searchName_eq filter_map comp_def conj_commute)
    also have "filter (\<lambda>e. covers (js_split (normalizeText upper p)) e \<and> name e = n) ents
        = filter (\<lambda>e. name e = n) ents"
      by (rule filter_cong) (use cov w in \<open>auto simp: covers_iff\<close>)
    finally show ?thesis by (simp add: 3)
  qed
  from 1 2 3 4 show ?thesis by blast
qed

text \<open>Four cells in two files with the normal form \<open>JOHN SMITH\<close>: four entries, and four
  results for the subject \<open>John Smi\<close>.\<close>

theorem loadCSVFolder_keeps_duplicates_witness:
  "loadCSVFolder example_table [(lit ''sdn.csv'', CsvRows [[lit ''John Smith'', lit ''JOHN SMITH''], [lit ''john   smith.'']]),
                   (lit ''alt.csv'', CsvRows [[lit ''Smith'', lit ''JOHN SMITH'']])]
     = Inr [\<lparr>id_entry = lit ''entry_1'', name = lit ''JOHN SMITH'', words = [lit ''JOHN'', lit ''SMITH'']\<rparr>,
            \<lparr>id_entry = lit ''entry_2'', name = lit ''JOHN SMITH'', words = [lit ''JOHN'', lit ''SMITH'']\<rparr>,
            \<lparr>id_entry = lit ''entry_3'', name = lit ''JOHN SMITH'', words = [lit ''JOHN'', lit ''SMITH'']\<rparr>,
            \<lparr>id_entry = lit ''entry_4'', name = lit ''SMITH'', words = [lit ''SMITH'']\<rparr>,
            \<lparr>id_entry = lit ''entry_5'', name = lit ''JOHN SMITH'', words = [lit ''JOHN'', lit ''SMITH'']\<rparr>]
   \<and> length (filter (\<lambda>m. matchedName m = lit ''JOHN SMITH'')
        (searchName example_table (JString (lit ''John Smi''))
           [\<lparr>id_entry = lit ''entry_1'', name = lit ''JOHN SMITH'', words = [lit ''JOHN'', lit ''SMITH'']\<rparr>,
            \<lparr>id_entry = lit ''entry_2'', name = lit ''JOHN SMITH'', words = [lit ''JOHN'', lit ''SMITH'']\<rparr>,
            \<lparr>id_entry = lit ''entry_3'', name = lit ''JOHN SMITH'', words = [lit ''JOHN'', lit ''SMITH'']\<rparr>,
            \<lparr>id_entry = lit ''entry_4'', name = lit ''SMITH'', words = [lit ''SMITH'']\<rparr>,
            \<lparr>id_entry = lit ''entry_5'', name = lit ''JOHN SMITH'', words = [lit ''JOHN'', lit ''SMITH'']\<rparr>])) = 4"
proof -
  define folder where "folder =
    [(lit ''sdn.csv'', CsvRows [[lit ''John Smith'', lit ''JOHN SMITH''], [lit ''john   smith.'']]),
     (lit ''alt.csv'', CsvRows [[lit ''Smith'', lit ''JOHN SMITH'']])]"
  define ents where "ents =
           [\<lparr>id_entry = lit ''entry_1'', name = lit ''JOHN SMITH'', words = [lit ''JOHN'', lit ''SMITH'']\<rparr>,
            \<lparr>id_entry = lit ''entry_2'', name = lit ''JOHN SMITH'', words = [lit ''JOHN'', lit ''SMITH'']\<rparr>,
            \<lparr>id_entry = lit ''entry_3'', name = lit ''JOHN SMITH'', words = [lit ''JOHN'', lit ''SMITH'']\<rparr>,
            \<lparr>id_entry = lit ''entry_4'', name = lit ''SMITH'', words = [lit ''SMITH'']\<rparr>,
            \<lparr>id_entry = lit ''entry_5'', name = lit ''JOHN SMITH'', words = [lit ''JOHN'', lit ''SMITH'']\<rparr>]"
  have load: "loadCSVFolder example_table folder = Inr ents"
    unfolding folder_def ents_def by code_simp
  have cells: "normalized_cells example_table (csv_files folder)
      = [lit ''JOHN SMITH'', lit ''JOHN SMITH'', lit ''JOHN SMITH'', lit ''SMITH'', lit ''JOHN SMITH'']"
    unfolding folder_def by code_simp
  have toks: "js_split (normalizeText example_table (JString (lit ''John Smi''))) = [lit ''JOHN'', lit ''SMI'']"
    by code_simp
  have sp: "js_split (lit ''JOHN SMITH'') = [lit ''JOHN'', lit ''SMITH'']"
    by code_simp
  from toks sp loadCSVFolder_keeps_duplicates [OF load, of "lit ''JOHN SMITH''" "JString (lit ''John Smi'')"]
  have "length (filter (\<lambda>m. matchedName m = lit ''JOHN SMITH'') (searchName example_table (JString (lit ''John Smi'')) ents)) = 4"
    by (simp add: cells lit_def del: normalizeText.simps)
  with load show ?thesis unfolding folder_def ents_def by simp
qed

section \<open>Truncation of the Matches cell\<close>

lemma matchesString_long:
  assumes "MAX_CELL_LENGTH < length (joinedMatches ms)"
  shows "matchesString ms = take MAX_CELL_LENGTH (joinedMatches ms) @ lit '' ...[truncated]''"
    and "length (matchesString ms) = MAX_CELL_LENGTH + length (lit '' ...[truncated]'')"
    and "suffix (lit '' ...[truncated]'') (matchesString ms)"
proof -
  show 1: "matchesString ms = take MAX_CELL_LENGTH (joinedMatches ms) @ lit '' ...[truncated]''"
    using assms by (simp add: matchesString_def)
  from assms have "length (take MAX_CELL_LENGTH (joinedMatches ms)) = MAX_CELL_LENGTH"
    by simp
  then show "length (matchesString ms) = MAX_CELL_LENGTH + length (lit '' ...[truncated]'')"
    unfolding 1 by (simp only: length_append)
  show "suffix (lit '' ...[truncated]'') (matchesString ms)"
    unfolding 1 by (rule suffix_appendI) (rule suffix_order.refl)
qed

lemma matchesString_short:
  "length (joinedMatches ms) \<le> MAX_CELL_LENGTH \<Longrightarrow> matchesString ms = joinedMatches ms"
  by (simp add: matchesString_def)

lemma nth_reportRows:
  "k < length pubs \<Longrightarrow>
   map (\<lambda>(j, pub). reportRow upper ents j pub) (enumerate i pubs) ! k = reportRow upper ents (i + k) (pubs ! k)"
  by (simp add: nth_enumerate_eq)

lemma Matches_reportRow:
  "Matches (reportRow upper ents i pub) = matchesString (searchName upper (JString (Name pub)) ents)"
  by (simp add: reportRow_def)

text \<open>
  C8. In the report of a completed run, for every subject: if the joined text of its
  matches is longer than \<open>MAX_CELL_LENGTH\<close>, the stored \<open>Matches\<close> value consists of the first
  \<open>MAX_CELL_LENGTH\<close> code units of the joined text followed by the truncation marker, so its
  length is \<open>MAX_CELL_LENGTH\<close> plus the length of the marker and it ends in the marker;
  otherwise the joined text is stored unchanged.
\<close>

theorem matches_cell_truncation:
  assumes "runChecker env p d cb = (fx, Inr folder)"
  shows "\<exists>ents sheet rows.
      loadCSVFolder (uppercase env) (csv_folder env) = Inr ents \<and> read_workbook env p = Some sheet
      \<and> written_reports fx = [rows] \<and> length rows = length sheet
      \<and> (\<forall>k < length sheet.
            (MAX_CELL_LENGTH < length (joinedMatches (searchName (uppercase env) (JString (Name (publisherOf (sheet ! k)))) ents))
             \<longrightarrow> length (Matches (rows ! k)) = MAX_CELL_LENGTH + length (lit '' ...[truncated]'')
                 \<and> suffix (lit '' ...[truncated]'') (Matches (rows ! k))
                 \<and> take MAX_CELL_LENGTH (Matches (rows ! k))
                     = take MAX_CELL_LENGTH
                         (joinedMatches (searchName (uppercase env) (JString (Name (publisherOf (sheet ! k)))) ents)))
          \<and> (length (joinedMatches (searchName (uppercase env) (JString (Name (publisherOf (sheet ! k)))) ents))
                \<le> MAX_CELL_LENGTH
             \<longrightarrow> Matches (rows ! k)
                   = joinedMatches (searchName (uppercase env) (JString (Name (publisherOf (sheet ! k)))) ents)))"
proof -
  from runChecker_Inr [OF assms] obtain ents sheet where
    load: "loadCSVFolder (uppercase env) (csv_folder env) = Inr ents" and wb: "read_workbook env p = Some sheet"
    and fx: "fx = LaunchBrowser #
             fst (subjectLoop env cb ents (folder @ lit ''/responses'') (folder @ lit ''/screenshots'')
                    (length sheet) 0 (map publisherOf sheet))
             @ [CloseBrowser,
                WriteReport (folder @ lit ''/OFAC_Results.xlsx'')
                  (map (\<lambda>(j, pub). reportRow (uppercase env) ents j pub) (enumerate 0 (map publisherOf sheet)))]"
    by blast
  define rows where "rows = map (\<lambda>(j, pub). reportRow (uppercase env) ents j pub) (enumerate 0 (map publisherOf sheet))"
  have 1: "written_reports fx = [rows]"
    unfolding fx rows_def by (rule written_reports_run)
  have 2: "length rows = length sheet"
    unfolding rows_def by simp
  have m: "Matches (rows ! k)
      = matchesString (searchName (uppercase env) (JString (Name (publisherOf (sheet ! k)))) ents)"
    if "k < length sheet" for k
  proof -
    from that have k': "k < length (map publisherOf sheet)" by simp
    show ?thesis
      unfolding rows_def nth_reportRows [OF k'] Matches_reportRow using that by simp
  qed
  have 3: "\<forall>k < length sheet.
            (MAX_CELL_LENGTH < length (joinedMatches (searchName (uppercase env) (JString (Name (publisherOf (sheet ! k)))) ents))
             \<longrightarrow> length (Matches (rows ! k)) = MAX_CELL_LENGTH + length (lit '' ...[truncated]'')
                 \<and> suffix (lit '' ...[truncated]'') (Matches (rows ! k))
                 \<and> take MAX_CELL_LENGTH (Matches (rows ! k))
                     = take MAX_CELL_LENGTH
                         (joinedMatches (searchName (uppercase env) (JString (Name (publisherOf (sheet ! k)))) ents)))
          \<and> (length (joinedMatches (searchName (uppercase env) (JString (Name (publisherOf (sheet ! k)))) ents))
                \<le> MAX_CELL_LENGTH
             \<longrightarrow> Matches (rows ! k)
                   = joinedMatches (searchName (uppercase env) (JString (Name (publisherOf (sheet ! k)))) ents))"
  proof (intro allI impI conjI)
    fix k assume k: "k < length sheet"
    let ?ms = "searchName (uppercase env) (JString (Name (publisherOf (sheet ! k)))) ents"
    {
      assume long: "MAX_CELL_LENGTH < length (joinedMatches ?ms)"
      show "length (Matches (rows ! k)) = MAX_CELL_LENGTH + length (lit '' ...[truncated]'')"
        unfolding m [OF k] by (rule matchesString_long(2) [OF long])
      show "suffix (lit '' ...[truncated]'') (Matches (rows ! k))"
        unfolding m [OF k] by (rule matchesString_long(3) [OF long])
      show "take MAX_CELL_LENGTH (Matches (rows ! k)) = take MAX_CELL_LENGTH (joinedMatches ?ms)"
        unfolding m [OF k] matchesString_long(1) [OF long] using long by simp
    }
    {
      assume "length (joinedMatches ?ms) \<le> MAX_CELL_LENGTH"
      then show "Matches (rows ! k) = joinedMatches ?ms"
        unfolding m [OF k] by (rule matchesString_short)
    }
  qed
  from load wb 1 2 3 show ?thesis by blast
qed

lemma normalizeText_plain:
  assumes "\<And>c. c \<in> set s \<Longrightarrow>
    \<not> is_space c \<and> \<not> is_punct c \<and> upper c = [c] \<and> c < 0xD800"
  shows "normalizeText upper (JString s) = s"
proof -
  from assms have lt: "\<forall>c \<in> set s. c < 0xD800"
    by blast
  then have dec: "StringToCodePoints s = s"
    by (induction s rule: StringToCodePoints.induct) (auto simp: is_leading_surrogate_def)
  from assms have tab: "concat (map upper s) = s"
    by (induction s) simp_all
  from lt have enc: "CodePointsToString s = s"
    unfolding CodePointsToString_def
    by (induction s) (auto simp: UTF16EncodeCodePoint_def)
  have up: "toUpperCase upper s = s"
    unfolding toUpperCase_def dec tab enc ..
  have sp: "strip_punct s = s"
    unfolding strip_punct_def filter_id_conv by (simp add: assms)
  from assms have co: "collapse_spaces s = s"
    by (induction s) simp_all
  have d1: "dropWhile is_space s = s"
    by (rule dropWhile_id) (cases s, simp_all add: assms)
  have d2: "dropWhile is_space (rev s) = rev s"
    by (rule dropWhile_id) (cases "rev s", simp, metis assms list.sel(1) list.set_intros(1) set_rev)
  have "trim s = s"
    unfolding trim_def d1 d2 by simp
  then show ?thesis
    by (simp only: normalizeText_JString up sp co)
qed

lemma js_split_no_space: "0x20 \<notin> set s \<Longrightarrow> js_split s = [s]"
  by (induction s) auto

lemma long_name_plain: "normalizeText example_table (JString long_name) = long_name"
proof (rule normalizeText_plain)
  fix c assume "c \<in> set long_name"
  then have "c = 0x41" by (simp add: long_name_def)
  then show "\<not> is_space c \<and> \<not> is_punct c \<and> example_table c = [c] \<and> c < 0xD800"
    by (simp add: is_space_def is_punct_def example_table_def)
qed

lemma long_name_Cons: "long_name = 0x41 # replicate 32000 0x41"
proof -
  have "(32001::nat) = Suc 32000" by simp
  then show ?thesis unfolding long_name_def by (simp only: replicate_Suc)
qed

lemma long_uppercase: "uppercase long_env = example_table"
  by (simp add: long_env_def example_env_def)

lemma long_folder: "csv_folder long_env = [(lit ''sdn.csv'', CsvRows [[long_name]])]"
  by (simp add: long_env_def)

lemma long_load:
  "loadCSVFolder (uppercase long_env) (csv_folder long_env)
     = Inr [\<lparr>id_entry = lit ''entry_1'', name = long_name, words = [long_name]\<rparr>]"
proof -
  have f: "csv_files [(lit ''sdn.csv'', CsvRows [[long_name]])] = [(lit ''sdn.csv'', CsvRows [[long_name]])]"
    by (simp add: csv_files_def suffix_def lit_def)
  have ne: "long_name \<noteq> []" by (simp add: long_name_Cons)
  have c: "normalized_cells example_table [(lit ''sdn.csv'', CsvRows [[long_name]])] = [long_name]"
    by (simp add: normalized_cells_def long_name_plain ne del: normalizeText.simps)
  have s: "js_split long_name = [long_name]"
    by (rule js_split_no_space) (simp add: long_name_def)
  have sf: "stream_failure [(lit ''sdn.csv'', CsvRows [[long_name]])] = None"
    by simp
  have e1: "lit ''entry_'' @ show_nat (Suc 0) = lit ''entry_1''"
    using show_nat_small by (simp add: lit_def)
  show ?thesis
    by (simp add: long_uppercase long_folder loadCSVFolder_eq f c s sf e1)
qed

lemma long_search:
  "searchName example_table (JString (lit ''A'')) [\<lparr>id_entry = lit ''entry_1'', name = long_name, words = [long_name]\<rparr>]
     = [\<lparr>id_match = lit ''entry_1'', matchedName = long_name, score = 1\<rparr>]"
proof -
  have t: "js_split (normalizeText example_table (JString (lit ''A''))) = [lit ''A'']" by code_simp
  have "prefix (lit ''A'') long_name" by (simp add: long_name_Cons lit_def)
  then show ?thesis
    by (simp add: searchName_eq t covers_def del: normalizeText.simps)
qed

lemma toFixed2_one: "toFixed2 1 = lit ''1.00''"
  by code_simp

lemma long_joined:
  "joinedMatches [\<lparr>id_match = lit ''entry_1'', matchedName = long_name, score = 1\<rparr>]
     = long_name @ lit '' (score: 1.00)''"
  by (simp add: joinedMatches_def toFixed2_one lit_def)

lemma long_run:
  "runChecker long_env (lit ''subjects.xlsx'') (lit ''/tmp'') True =
     (LaunchBrowser #
        fst (subjectLoop long_env True [\<lparr>id_entry = lit ''entry_1'', name = long_name, words = [long_name]\<rparr>]
               (lit ''/tmp'' @ lit ''/OFAC Results '' @ timestamp long_env @ lit ''/responses'')
               (lit ''/tmp'' @ lit ''/OFAC Results '' @ timestamp long_env @ lit ''/screenshots'')
               (length [[(lit ''Name'', lit ''A'')]]) 0 (map publisherOf [[(lit ''Name'', lit ''A'')]]))
        @ [CloseBrowser,
           WriteReport (lit ''/tmp'' @ lit ''/OFAC Results '' @ timestamp long_env @ lit ''/OFAC_Results.xlsx'')
             (map (\<lambda>(j, pub). reportRow example_table [\<lparr>id_entry = lit ''entry_1'', name = long_name, words = [long_name]\<rparr>] j pub)
                (enumerate 0 (map publisherOf [[(lit ''Name'', lit ''A'')]])))],
      Inr (lit ''/tmp'' @ lit ''/OFAC Results '' @ timestamp long_env))"
proof -
  have wb: "read_workbook long_env (lit ''subjects.xlsx'') = Some [[(lit ''Name'', lit ''A'')]]"
    by (simp add: long_env_def)
  have "launch_ok long_env" "report_write_ok long_env"
    "list_all (json_write_ok long_env) [0..<length [[(lit ''Name'', lit ''A'')]]]"
    by (simp_all add: long_env_def example_env_def)
  from runChecker_completes [OF long_load wb this, unfolded long_uppercase]
  show ?thesis .
qed

text \<open>A run whose one subject matches a name of 32001 letters: the joined text has 32015
  code units and is cut to 32000 code units plus the marker.\<close>

theorem matches_cell_truncation_witness:
  "\<exists>fx rows. runChecker long_env (lit ''subjects.xlsx'') (lit ''/tmp'') True
        = (fx, Inr (lit ''/tmp/OFAC Results 2024-01-01T00-00-00-000Z''))
     \<and> written_reports fx = [rows] \<and> length rows = 1
     \<and> length (Matches (rows ! 0)) = 32000 + 15
     \<and> suffix (lit '' ...[truncated]'') (Matches (rows ! 0))
     \<and> take 32000 (Matches (rows ! 0)) = replicate 32000 0x41"
proof -
  define fx where "fx = fst (runChecker long_env (lit ''subjects.xlsx'') (lit ''/tmp'') True)"
  have run: "runChecker long_env (lit ''subjects.xlsx'') (lit ''/tmp'') True
      = (fx, Inr (lit ''/tmp/OFAC Results 2024-01-01T00-00-00-000Z''))"
    unfolding fx_def by (simp add: long_run) (simp add: long_env_def example_env_def lit_def)
  from matches_cell_truncation [OF run, unfolded long_uppercase] obtain ents sheet rows where
    load: "loadCSVFolder example_table (csv_folder long_env) = Inr ents"
    and wb: "read_workbook long_env (lit ''subjects.xlsx'') = Some sheet"
    and rep: "written_reports fx = [rows]" and len: "length rows = length sheet"
    and all: "\<forall>k < length sheet.
            (MAX_CELL_LENGTH < length (joinedMatches (searchName example_table (JString (Name (publisherOf (sheet ! k)))) ents))
             \<longrightarrow> length (Matches (rows ! k)) = MAX_CELL_LENGTH + length (lit '' ...[truncated]'')
                 \<and> suffix (lit '' ...[truncated]'') (Matches (rows ! k))
                 \<and> take MAX_CELL_LENGTH (Matches (rows ! k))
                     = take MAX_CELL_LENGTH
                         (joinedMatches (searchName example_table (JString (Name (publisherOf (sheet ! k)))) ents)))
          \<and> (length (joinedMatches (searchName example_table (JString (Name (publisherOf (sheet ! k)))) ents))
                \<le> MAX_CELL_LENGTH
             \<longrightarrow> Matches (rows ! k)
                   = joinedMatches (searchName example_table (JString (Name (publisherOf (sheet ! k)))) ents))"
    by blast
  from load have ents: "ents = [\<lparr>id_entry = lit ''entry_1'', name = long_name, words = [long_name]\<rparr>]"
    by (simp add: long_load [unfolded long_uppercase])
  from wb have sheet: "sheet = [[(lit ''Name'', lit ''A'')]]"
    by (simp add: long_env_def)
  have pub: "Name (publisherOf (sheet ! 0)) = lit ''A''"
    by (simp add: sheet publisherOf_def or_else_def lit_def)
  have joined: "joinedMatches (searchName example_table (JString (Name (publisherOf (sheet ! 0)))) ents)
      = long_name @ lit '' (score: 1.00)''"
    by (simp only: pub ents long_search long_joined)
  have long: "MAX_CELL_LENGTH < length (long_name @ lit '' (score: 1.00)'')"
    by (simp add: MAX_CELL_LENGTH_def long_name_def)
  have tk: "take MAX_CELL_LENGTH (long_name @ lit '' (score: 1.00)'') = replicate 32000 0x41"
    by (simp add: MAX_CELL_LENGTH_def long_name_def)
  have k0: "0 < length sheet"
    by (simp add: sheet)
  have long': "MAX_CELL_LENGTH
      < length (joinedMatches (searchName example_table (JString (Name (publisherOf (sheet ! 0)))) ents))"
    by (simp only: joined long)
  from all [rule_format, OF k0, THEN conjunct1, THEN mp, OF long']
  have "length (Matches (rows ! 0)) = MAX_CELL_LENGTH + length (lit '' ...[truncated]'')
      \<and> suffix (lit '' ...[truncated]'') (Matches (rows ! 0))
      \<and> take MAX_CELL_LENGTH (Matches (rows ! 0)) = replicate 32000 0x41"
    by (simp only: joined tk)
  then have "length (Matches (rows ! 0)) = 32000 + 15
      \<and> suffix (lit '' ...[truncated]'') (Matches (rows ! 0))
      \<and> take 32000 (Matches (rows ! 0)) = replicate 32000 0x41"
    by (simp add: MAX_CELL_LENGTH_def lit_def)
  moreover from len have "length rows = 1" by (simp add: sheet)
  ultimately show ?thesis using run rep by blast
qed

end

